theory Spec2Isabelle
  imports Main "HOL-Library.Word"
begin

section \<open>The virtual machine of luna: data model\<close>

text \<open>
  The development follows \<^verbatim>\<open>src/VirtualMachine.cpp\<close>. The classes the file uses but
  does not define (\<^verbatim>\<open>Value\<close>, \<^verbatim>\<open>Table\<close>, \<^verbatim>\<open>Closure\<close>, \<^verbatim>\<open>Function\<close>, \<^verbatim>\<open>Stack\<close>,
  \<^verbatim>\<open>DataPool\<close>, \<^verbatim>\<open>Instruction\<close>, \<^verbatim>\<open>CallStackInfo\<close>) are modelled from their
  contracts in the specification; each such definition says so.

  A \<^verbatim>\<open>Value *\<close> is either the null pointer or points to an object of the data pool.
  Tables and closures are objects with identity: they are stored in the pool and a
  value refers to them by their index there, so that two references to one table alias.
\<close>

text \<open>Modelled from the spec: the value variants of \<^verbatim>\<open>Value\<close> (the class hierarchy is not
  in the source file). Numbers carry an integer: the machine itself only creates the
  numbers \<^verbatim>\<open>1, 2, ...\<close> (the keys of the argument table). A \<^verbatim>\<open>Function\<close> object (the
  compiled unit) and a \<^verbatim>\<open>Closure\<close> object both answer \<^verbatim>\<open>TYPE_FUNCTION\<close>, as the
  assertions of \<^verbatim>\<open>GenerateClosure\<close> and \<^verbatim>\<open>GetTable\<close> require.\<close>

datatype val =
    VNil
  | VBool bool
  | VNumber int
  | VString string
  | VTable nat
  | VFunction nat
  | VClosure nat
  | VNativeFunction nat

text \<open>A \<^verbatim>\<open>Value *\<close>: \<open>None\<close> is the null pointer.\<close>

type_synonym ptr = "val option"

datatype ValueType =
    TYPE_NIL | TYPE_BOOL | TYPE_NUMBER | TYPE_STRING | TYPE_TABLE
  | TYPE_FUNCTION | TYPE_NATIVE_FUNCTION

text \<open>Modelled from the spec: \<^verbatim>\<open>Value::Type()\<close>.\<close>

fun Type :: "val \<Rightarrow> ValueType" where
  "Type VNil = TYPE_NIL"
| "Type (VBool b) = TYPE_BOOL"
| "Type (VNumber n) = TYPE_NUMBER"
| "Type (VString s) = TYPE_STRING"
| "Type (VTable a) = TYPE_TABLE"
| "Type (VFunction f) = TYPE_FUNCTION"
| "Type (VClosure c) = TYPE_FUNCTION"
| "Type (VNativeFunction n) = TYPE_NATIVE_FUNCTION"

text \<open>Modelled from the spec: \<^verbatim>\<open>Value::Name()\<close>, the type name used in error messages.
  The spec fixes the name of a number (\<open>attempt to index value from number\<close>); the other
  names are the names of the types.\<close>

fun Name :: "val \<Rightarrow> string" where
  "Name VNil = ''nil''"
| "Name (VBool b) = ''bool''"
| "Name (VNumber n) = ''number''"
| "Name (VString s) = ''string''"
| "Name (VTable a) = ''table''"
| "Name (VFunction f) = ''function''"
| "Name (VClosure c) = ''function''"
| "Name (VNativeFunction n) = ''native function''"

text \<open>The ways a handler can fail. \<open>RuntimeError\<close> is the exception the source throws;
  \<open>KeyError\<close> is the runtime error of \<^verbatim>\<open>Table::Assign\<close> for a nil key (its message is not
  in the source file); \<open>NativeRaised\<close> is an error raised inside a native function. The
  others make the undefined behaviour of the C++ explicit: a failed \<^verbatim>\<open>assert\<close>, a
  dereferenced null pointer, and an invalid access (an index outside a container, a
  \<^verbatim>\<open>static_cast\<close> to the wrong class, the wrong member of a union, a pointer to no
  object).\<close>

datatype error =
    RuntimeError string
  | KeyError
  | NativeRaised string
  | AssertionFailed
  | NullDereference
  | InvalidAccess

text \<open>Modelled from the spec: a \<^verbatim>\<open>Table\<close> maps keys to value pointers. A key that was
  assigned is present (\<^verbatim>\<open>HaveKey\<close>), also when the value is Nil.\<close>

type_synonym Table = "val \<Rightarrow> ptr option"

text \<open>A stack slot: a value pointer, or a counter \<open>{current, total}\<close>. The two fields
  are C++ \<^verbatim>\<open>int\<close>s; they are integers here, and the overflow of \<^verbatim>\<open>current++\<close> or of
  the sum of two totals in \<^verbatim>\<open>MergeCounter\<close>, undefined in C++, is not modelled.\<close>

datatype StackValue =
    StackValueType_Value ptr
  | StackValueType_Counter int int  \<comment> \<open>\<open>current\<close>, then \<open>total\<close>\<close>

text \<open>The seventeen opcodes of the dispatch switch; \<open>OpCode_Other n\<close> stands for any
  other value of the \<^verbatim>\<open>op_code\<close> field (the enumeration is not in the source file).\<close>

datatype OpCode =
    OpCode_Assign | OpCode_CleanStack | OpCode_GetLocalTable | OpCode_GetTable
  | OpCode_GetTableValue | OpCode_Push | OpCode_GenerateClosure | OpCode_Ret
  | OpCode_GenerateArgTable | OpCode_MergeCounter | OpCode_ResetCounter
  | OpCode_DuplicateCounter | OpCode_Call | OpCode_AddLocalTable | OpCode_DelLocalTable
  | OpCode_AddGlobalTable | OpCode_DelGlobalTable | OpCode_Other nat

text \<open>Modelled from the spec: the parameter of an instruction, a discriminated union.\<close>

datatype InstructionParam =
    InstructionParamType_Name ptr
  | InstructionParamType_Value ptr
  | InstructionParamType_Counter int
  | InstructionParamType_CounterIndex int

record Instruction =
  op_code :: OpCode
  param_a :: InstructionParam

text \<open>Modelled from the spec: a \<^verbatim>\<open>Function\<close> is the immutable compiled unit, with its
  instructions and the names of its upvalues in iteration order.\<close>

record Function =
  instructions :: "Instruction list"
  upvalue_set :: "ptr list"

text \<open>Modelled from the spec: a \<^verbatim>\<open>Closure\<close> refers to its function and owns an upvalue
  table, which is the null pointer when the function declares no upvalue.\<close>

record Closure =
  closure_func :: nat
  upvalue_table :: "nat option"

text \<open>Modelled from the spec: a call record. \<open>caller_base\<close> is the caller's instruction
  array (the empty list for the null pointer). \<open>callee_tables\<close> is a \<^verbatim>\<open>std::size_t\<close>, the
  type both of its readers copy it into; the four-argument constructor sets it to 0.\<close>

record CallStackInfo =
  caller_base :: "Instruction list"
  caller_total :: int
  caller_offset :: int
  callee :: ptr
  callee_tables :: "64 word"

definition new_CallStackInfo :: "Instruction list \<Rightarrow> int \<Rightarrow> int \<Rightarrow> ptr \<Rightarrow> CallStackInfo" where
  "new_CallStackInfo b t off c =
     \<lparr>caller_base = b, caller_total = t, caller_offset = off, callee = c, callee_tables = 0\<rparr>"

text \<open>The state of the machine. \<open>stack\<close> is the operand stack, its top last. \<open>tables\<close>
  and \<open>closures\<close> are the objects of the data pool, a reference being an index;
  \<open>funcs\<close> are the compiled units, which no handler changes. \<open>nest_tables\<close> holds
  \<^verbatim>\<open>Table *\<close> pointers (\<open>None\<close> is null), the innermost scope last. \<open>global_table\<close> is
  what \<^verbatim>\<open>state_->GetGlobalTable()\<close> returns. \<open>native\<close> is the behaviour of the native
  functions: \<^verbatim>\<open>NativeFunction::Call()\<close> works on the operand stack and on the tables of
  the pool, and either raises or returns.\<close>

record machine =
  stack :: "StackValue list"
  tables :: "Table list"
  closures :: "Closure list"
  funcs :: "Function list"
  nest_tables :: "nat option list"
  call_stack :: "CallStackInfo list"
  ins_base :: "Instruction list"
  ins_count :: int
  ins_current :: int
  global_table :: "nat option"
  native :: "nat \<Rightarrow> StackValue list \<times> Table list \<Rightarrow> string + StackValue list \<times> Table list"

text \<open>A handler either returns the new state or throws. The C++ does not undo what a
  handler did before it threw, so an error carries the state at the throw.\<close>

type_synonym result = "(error \<times> machine) + machine"

text \<open>\<open>attempt x s f\<close>: continue with the value of \<open>x\<close>, or throw its error in state \<open>s\<close>.\<close>

definition attempt ::
  "error + 'a \<Rightarrow> machine \<Rightarrow> ('a \<Rightarrow> (error \<times> machine) + 'b) \<Rightarrow> (error \<times> machine) + 'b" where
  "attempt x s f = (case x of Inl e \<Rightarrow> Inl (e, s) | Inr a \<Rightarrow> f a)"

section \<open>The operand stack\<close>

text \<open>Modelled from the spec: the operations of \<^verbatim>\<open>Stack\<close>. \<^verbatim>\<open>Top()\<close> of an empty stack
  is the null pointer; popping more slots than there are and indexing outside the stack
  are invalid accesses. \<^verbatim>\<open>GetStackValue(i)\<close> counts a negative \<open>i\<close> from the top
  (\<open>-1\<close> is the top) and any other \<open>i\<close> from the bottom.\<close>

definition Top :: "StackValue list \<Rightarrow> StackValue option" where
  "Top stk = (if stk = [] then None else Some (last stk))"

definition Pop :: "int \<Rightarrow> StackValue list \<Rightarrow> error + StackValue list" where
  "Pop n stk =
     (if 0 \<le> n \<and> n \<le> int (length stk) then Inr (take (length stk - nat n) stk)
      else Inl InvalidAccess)"

definition Push :: "StackValue \<Rightarrow> StackValue list \<Rightarrow> StackValue list" where
  "Push x stk = stk @ [x]"

definition stack_index :: "StackValue list \<Rightarrow> int \<Rightarrow> error + nat" where
  "stack_index stk i =
     (let j = (if i < 0 then int (length stk) + i else i)
      in if 0 \<le> j \<and> j < int (length stk) then Inr (nat j) else Inl InvalidAccess)"

definition GetStackValue :: "StackValue list \<Rightarrow> int \<Rightarrow> error + StackValue" where
  "GetStackValue stk i = (case stack_index stk i of Inl e \<Rightarrow> Inl e | Inr j \<Rightarrow> Inr (stk ! j))"

text \<open>Reading \<^verbatim>\<open>Top()->param.value\<close> after \<^verbatim>\<open>assert(Top()->type == StackValueType_Value)\<close>,
  and the same for a counter.\<close>

definition top_value :: "StackValue list \<Rightarrow> error + ptr" where
  "top_value stk =
     (case Top stk of
        None \<Rightarrow> Inl NullDereference
      | Some (StackValueType_Counter c t) \<Rightarrow> Inl AssertionFailed
      | Some (StackValueType_Value v) \<Rightarrow> Inr v)"

definition top_counter :: "StackValue list \<Rightarrow> error + int \<times> int" where
  "top_counter stk =
     (case Top stk of
        None \<Rightarrow> Inl NullDereference
      | Some (StackValueType_Value v) \<Rightarrow> Inl AssertionFailed
      | Some (StackValueType_Counter c t) \<Rightarrow> Inr (c, t))"

text \<open>Reading \<^verbatim>\<open>param.value\<close> or \<^verbatim>\<open>param.counter\<close> of a slot with no assertion before:
  the other member of the union is an invalid access.\<close>

definition slot_value :: "StackValue \<Rightarrow> error + ptr" where
  "slot_value sv =
     (case sv of StackValueType_Value v \<Rightarrow> Inr v | StackValueType_Counter c t \<Rightarrow> Inl InvalidAccess)"

definition slot_counter :: "StackValue \<Rightarrow> error + int \<times> int" where
  "slot_counter sv =
     (case sv of StackValueType_Counter c t \<Rightarrow> Inr (c, t) | StackValueType_Value v \<Rightarrow> Inl InvalidAccess)"

section \<open>Tables of the data pool\<close>

text \<open>Modelled from the spec: the operations of \<^verbatim>\<open>Table\<close> through a \<^verbatim>\<open>Table *\<close>. The null
  pointer and a null key are null dereferences, an index that is no table of the pool is
  an invalid access. \<^verbatim>\<open>Assign\<close> rejects the key Nil; \<^verbatim>\<open>GetValue\<close> and
  \<^verbatim>\<open>GetTableValue\<close> answer Nil for an absent key.\<close>

definition Table_HaveKey :: "Table list \<Rightarrow> nat option \<Rightarrow> ptr \<Rightarrow> error + bool" where
  "Table_HaveKey ts t key =
     (case t of
        None \<Rightarrow> Inl NullDereference
      | Some a \<Rightarrow>
          if a < length ts then
            (case key of None \<Rightarrow> Inl NullDereference | Some k \<Rightarrow> Inr ((ts ! a) k \<noteq> None))
          else Inl InvalidAccess)"

definition Table_GetValue :: "Table list \<Rightarrow> nat option \<Rightarrow> ptr \<Rightarrow> error + ptr" where
  "Table_GetValue ts t key =
     (case t of
        None \<Rightarrow> Inl NullDereference
      | Some a \<Rightarrow>
          if a < length ts then
            (case key of
               None \<Rightarrow> Inl NullDereference
             | Some k \<Rightarrow> Inr (case (ts ! a) k of None \<Rightarrow> Some VNil | Some v \<Rightarrow> v))
          else Inl InvalidAccess)"

definition Table_Assign :: "Table list \<Rightarrow> nat option \<Rightarrow> ptr \<Rightarrow> ptr \<Rightarrow> error + Table list" where
  "Table_Assign ts t key v =
     (case t of
        None \<Rightarrow> Inl NullDereference
      | Some a \<Rightarrow>
          if a < length ts then
            (case key of
               None \<Rightarrow> Inl NullDereference
             | Some k \<Rightarrow> if k = VNil then Inl KeyError else Inr (ts[a := (ts ! a)(k \<mapsto> v)]))
          else Inl InvalidAccess)"

text \<open>\<^verbatim>\<open>static_cast<Table *>(v)\<close> of a value pointer: defined only for null and for a
  table.\<close>

definition as_table :: "ptr \<Rightarrow> error + nat option" where
  "as_table p =
     (case p of None \<Rightarrow> Inr None | Some (VTable a) \<Rightarrow> Inr (Some a) | Some _ \<Rightarrow> Inl InvalidAccess)"

text \<open>A \<^verbatim>\<open>Table *\<close> converted to a \<^verbatim>\<open>Value *\<close>.\<close>

definition table_ptr :: "nat option \<Rightarrow> ptr" where
  "table_ptr t = map_option VTable t"

text \<open>\<^verbatim>\<open>vector::back()\<close>: invalid on an empty vector.\<close>

definition vector_back :: "'a list \<Rightarrow> error + 'a" where
  "vector_back xs = (if xs = [] then Inl InvalidAccess else Inr (last xs))"

section \<open>The handlers\<close>

definition Assign :: "machine \<Rightarrow> result" where
  "Assign s =
     attempt (top_value (stack s)) s (\<lambda>key.
     attempt (Pop 2 (stack s)) s (\<lambda>stk1. let s1 = s\<lparr>stack := stk1\<rparr> in
     attempt (top_value stk1) s1 (\<lambda>table.
     attempt (Pop 1 stk1) s1 (\<lambda>stk2. let s2 = s1\<lparr>stack := stk2\<rparr> in
     attempt (top_counter stk2) s2 (\<lambda>(cur, tot).
       if cur < tot then
         let index = cur - tot - 1;
             stk3 = stk2[length stk2 - 1 := StackValueType_Counter (cur + 1) tot];
             s3 = s2\<lparr>stack := stk3\<rparr>
         in attempt (GetStackValue stk3 index) s3 (\<lambda>sv.
            attempt (slot_value sv) s3 (\<lambda>v.
            attempt (as_table table) s3 (\<lambda>t.
            attempt (Table_Assign (tables s3) t key v) s3 (\<lambda>ts.
              Inr (s3\<lparr>tables := ts\<rparr>)))))
       else
         attempt (as_table table) s2 (\<lambda>t.
         attempt (Table_Assign (tables s2) t key (Some VNil)) s2 (\<lambda>ts.
           Inr (s2\<lparr>tables := ts\<rparr>))))))))"

definition CleanStack :: "machine \<Rightarrow> result" where
  "CleanStack s =
     (case Top (stack s) of
        None \<Rightarrow> Inl (AssertionFailed, s)
      | Some (StackValueType_Value v) \<Rightarrow> Inl (AssertionFailed, s)
      | Some (StackValueType_Counter cur tot) \<Rightarrow>
          attempt (Pop 1 (stack s)) s (\<lambda>stk1. let s1 = s\<lparr>stack := stk1\<rparr> in
            if tot > 0 then attempt (Pop tot stk1) s1 (\<lambda>stk2. Inr (s1\<lparr>stack := stk2\<rparr>))
            else Inr s1))"

text \<open>\<^verbatim>\<open>ResetCounter\<close> copies the total into a \<^verbatim>\<open>std::size_t\<close>, and \<^verbatim>\<open>Pop\<close> takes the
  difference back as an \<^verbatim>\<open>int\<close>: for a total that is neither 0 nor 1 the number of slots
  popped is \<open>total - 1\<close>.\<close>

definition ResetCounter :: "machine \<Rightarrow> result" where
  "ResetCounter s =
     attempt (top_counter (stack s)) s (\<lambda>(cur, counter).
       if counter = 1 then Inr s
       else
         attempt (Pop 1 (stack s)) s (\<lambda>stk1. let s1 = s\<lparr>stack := stk1\<rparr> in
           if counter = 0 then
             Inr (s1\<lparr>stack := Push (StackValueType_Counter 0 1)
                                 (Push (StackValueType_Value (Some VNil)) stk1)\<rparr>)
           else
             attempt (Pop (counter - 1) stk1) s1 (\<lambda>stk2.
               Inr (s1\<lparr>stack := Push (StackValueType_Counter 0 1) stk2\<rparr>))))"

definition GetLocalTable :: "machine \<Rightarrow> result" where
  "GetLocalTable s =
     attempt (vector_back (nest_tables s)) s (\<lambda>t.
       Inr (s\<lparr>stack := Push (StackValueType_Counter 0 1)
                          (Push (StackValueType_Value (table_ptr t)) (stack s))\<rparr>))"

text \<open>The scan of \<^verbatim>\<open>GetTable\<close>: \<open>its\<close> is what the reverse iterator has still to visit,
  \<open>n\<close> is \<^verbatim>\<open>callee_tables\<close>. Each round advances the iterator and decrements the
  count; the iterator is not compared with \<^verbatim>\<open>rend()\<close>.\<close>

fun GetTable_loop :: "Table list \<Rightarrow> ptr \<Rightarrow> nat option list \<Rightarrow> nat \<Rightarrow> error + nat option" where
  "GetTable_loop ts key its 0 = Inr None"
| "GetTable_loop ts key [] (Suc n) = Inl InvalidAccess"
| "GetTable_loop ts key (t # its) (Suc n) =
     (case Table_HaveKey ts t key of
        Inl e \<Rightarrow> Inl e
      | Inr found \<Rightarrow> if found then Inr t else GetTable_loop ts key its n)"

text \<open>\<^verbatim>\<open>static_cast<Closure *>(v)\<close> and the access to the closure: defined only when
  \<open>v\<close> is a closure of the pool.\<close>

definition as_closure :: "Closure list \<Rightarrow> val \<Rightarrow> error + Closure" where
  "as_closure cls v =
     (case v of
        VClosure c \<Rightarrow> if c < length cls then Inr (cls ! c) else Inl InvalidAccess
      | _ \<Rightarrow> Inl InvalidAccess)"

definition GetTable :: "Instruction \<Rightarrow> machine \<Rightarrow> result" where
  "GetTable ins s =
     (case param_a ins of
        InstructionParamType_Name key \<Rightarrow>
          attempt (vector_back (call_stack s)) s (\<lambda>info.
          attempt (GetTable_loop (tables s) key (rev (nest_tables s)) (unat (callee_tables info))) s
           (\<lambda>found.
             case found of
               Some a \<Rightarrow>
                 Inr (s\<lparr>stack := Push (StackValueType_Counter 0 1)
                                    (Push (StackValueType_Value (Some (VTable a))) (stack s))\<rparr>)
             | None \<Rightarrow>
                 (case callee info of
                    None \<Rightarrow> Inl (NullDereference, s)
                  | Some c \<Rightarrow>
                      if Type c \<noteq> TYPE_FUNCTION then Inl (AssertionFailed, s)
                      else
                        attempt (as_closure (closures s) c) s (\<lambda>cl.
                          Inr (s\<lparr>stack := Push (StackValueType_Counter 0 1)
                                   (Push (StackValueType_Value (table_ptr (upvalue_table cl)))
                                      (stack s))\<rparr>)))))
      | _ \<Rightarrow> Inl (AssertionFailed, s))"

fun GetTableValue_loop :: "StackValue list \<Rightarrow> nat \<Rightarrow> int \<Rightarrow> error + int" where
  "GetTableValue_loop stk 0 index = Inr index"
| "GetTableValue_loop stk (Suc n) index =
     (case GetStackValue stk (index - 1) of
        Inl e \<Rightarrow> Inl e
      | Inr (StackValueType_Value v) \<Rightarrow> Inl AssertionFailed
      | Inr (StackValueType_Counter c t) \<Rightarrow> GetTableValue_loop stk n (index - 1 - t))"

definition GetTableValue :: "Instruction \<Rightarrow> machine \<Rightarrow> result" where
  "GetTableValue ins s =
     (case param_a ins of
        InstructionParamType_CounterIndex counter_index \<Rightarrow>
          attempt (GetTableValue_loop (stack s) (nat counter_index) (- 1)) s (\<lambda>index.
          attempt (GetStackValue (stack s) (index - 1)) s (\<lambda>c.
            case c of
              StackValueType_Value x \<Rightarrow> Inl (AssertionFailed, s)
            | StackValueType_Counter cc ct \<Rightarrow>
                attempt (stack_index (stack s) (index - 2)) s (\<lambda>j.
                attempt (slot_value (stack s ! j)) s (\<lambda>table.
                  case table of
                    None \<Rightarrow> Inl (NullDereference, s)
                  | Some tv \<Rightarrow>
                      if Type tv \<noteq> TYPE_TABLE then
                        Inl (RuntimeError (''attempt to index value from '' @ Name tv), s)
                      else
                        attempt (case Top (stack s) of
                                   None \<Rightarrow> Inl NullDereference
                                 | Some ksv \<Rightarrow> slot_value ksv) s (\<lambda>key.
                        attempt (as_table table) s (\<lambda>t.
                        attempt (Table_GetValue (tables s) t key) s (\<lambda>v.
                          let s1 = s\<lparr>stack := (stack s)[j := StackValueType_Value v]\<rparr>
                          in attempt (Pop 1 (stack s1)) s1 (\<lambda>stk. Inr (s1\<lparr>stack := stk\<rparr>)))))))))
      | _ \<Rightarrow> Inl (InvalidAccess, s))"

definition DoPush :: "Instruction \<Rightarrow> machine \<Rightarrow> result" where
  "DoPush ins s =
     (case param_a ins of
        InstructionParamType_Name name \<Rightarrow> Inr (s\<lparr>stack := Push (StackValueType_Value name) (stack s)\<rparr>)
      | InstructionParamType_Value v \<Rightarrow> Inr (s\<lparr>stack := Push (StackValueType_Value v) (stack s)\<rparr>)
      | InstructionParamType_Counter n \<Rightarrow> Inr (s\<lparr>stack := Push (StackValueType_Counter 0 n) (stack s)\<rparr>)
      | InstructionParamType_CounterIndex i \<Rightarrow> Inr s)"

text \<open>The scan of \<^verbatim>\<open>GetUpvalueKeyOwnerTable\<close>: the loop runs while \<^verbatim>\<open>callee_tables > 0\<close>
  and the iterator is not \<^verbatim>\<open>rend()\<close>; its step advances the iterator only.\<close>

fun GetUpvalueKeyOwnerTable_loop ::
  "Table list \<Rightarrow> ptr \<Rightarrow> nat option list \<Rightarrow> 64 word \<Rightarrow> error + nat option" where
  "GetUpvalueKeyOwnerTable_loop ts key [] ct = Inr None"
| "GetUpvalueKeyOwnerTable_loop ts key (t # its) ct =
     (if ct > 0 then
        (case Table_HaveKey ts t key of
           Inl e \<Rightarrow> Inl e
         | Inr found \<Rightarrow> if found then Inr t else GetUpvalueKeyOwnerTable_loop ts key its ct)
      else Inr None)"

definition GetUpvalueKeyOwnerTable :: "ptr \<Rightarrow> machine \<Rightarrow> (error \<times> machine) + (nat \<times> machine)" where
  "GetUpvalueKeyOwnerTable key s =
     attempt (vector_back (call_stack s)) s (\<lambda>info.
     attempt (GetUpvalueKeyOwnerTable_loop (tables s) key (rev (nest_tables s)) (callee_tables info)) s
      (\<lambda>found.
        case found of
          Some a \<Rightarrow> Inr (a, s)
        | None \<Rightarrow>
            (case callee info of
               Some c \<Rightarrow>
                 attempt (as_closure (closures s) c) s (\<lambda>cl.
                   case upvalue_table cl of
                     None \<Rightarrow> Inl (AssertionFailed, s)
                   | Some u \<Rightarrow>
                       attempt (Table_HaveKey (tables s) (Some u) key) s (\<lambda>present.
                         if present then Inr (u, s) else Inl (AssertionFailed, s)))
             | None \<Rightarrow>
                 if callee_tables info \<noteq> 1 then Inl (AssertionFailed, s)
                 else
                   attempt (vector_back (nest_tables s)) s (\<lambda>t.
                   attempt (Table_Assign (tables s) t key (Some VNil)) s (\<lambda>ts.
                     case t of
                       None \<Rightarrow> Inl (NullDereference, s)
                     | Some a \<Rightarrow> Inr (a, s\<lparr>tables := ts\<rparr>))))))"

text \<open>Modelled from the spec: \<^verbatim>\<open>DataPool::GetTable()\<close> allocates a fresh empty table and
  \<^verbatim>\<open>DataPool::GetClosure(func)\<close> a new closure, with a fresh upvalue table exactly when
  the function declares an upvalue. A fresh object is appended to the pool.\<close>

definition DataPool_GetTable :: "machine \<Rightarrow> nat \<times> machine" where
  "DataPool_GetTable s = (length (tables s), s\<lparr>tables := tables s @ [Map.empty]\<rparr>)"

definition DataPool_GetClosure :: "nat \<Rightarrow> Function \<Rightarrow> machine \<Rightarrow> nat \<times> machine" where
  "DataPool_GetClosure f func s =
     (if upvalue_set func = [] then
        (length (closures s),
         s\<lparr>closures := closures s @ [\<lparr>closure_func = f, upvalue_table = None\<rparr>]\<rparr>)
      else
        (length (closures s),
         s\<lparr>tables := tables s @ [Map.empty],
           closures := closures s @ [\<lparr>closure_func = f, upvalue_table = Some (length (tables s))\<rparr>]\<rparr>))"

text \<open>The loop of \<^verbatim>\<open>GenerateClosure\<close> over the upvalue names; \<open>u\<close> is the upvalue table
  of the new closure.\<close>

fun GenerateClosure_loop :: "nat \<Rightarrow> ptr list \<Rightarrow> machine \<Rightarrow> result" where
  "GenerateClosure_loop u [] s = Inr s"
| "GenerateClosure_loop u (name # names) s =
     (case GetUpvalueKeyOwnerTable name s of
        Inl e \<Rightarrow> Inl e
      | Inr (t, s1) \<Rightarrow>
          (case Table_GetValue (tables s1) (Some t) name of
             Inl e \<Rightarrow> Inl (e, s1)
           | Inr v \<Rightarrow>
               (case Table_Assign (tables s1) (Some u) name v of
                  Inl e \<Rightarrow> Inl (e, s1)
                | Inr ts \<Rightarrow> GenerateClosure_loop u names (s1\<lparr>tables := ts\<rparr>))))"

text \<open>\<^verbatim>\<open>static_cast<Function *>(v)\<close> after \<^verbatim>\<open>assert(v->Type() == TYPE_FUNCTION)\<close>.\<close>

definition as_function :: "Function list \<Rightarrow> ptr \<Rightarrow> error + nat \<times> Function" where
  "as_function fs p =
     (case p of
        None \<Rightarrow> Inl NullDereference
      | Some v \<Rightarrow>
          if Type v \<noteq> TYPE_FUNCTION then Inl AssertionFailed
          else (case v of
                  VFunction f \<Rightarrow> if f < length fs then Inr (f, fs ! f) else Inl InvalidAccess
                | _ \<Rightarrow> Inl InvalidAccess))"

definition GenerateClosure :: "Instruction \<Rightarrow> machine \<Rightarrow> result" where
  "GenerateClosure ins s =
     (case param_a ins of
        InstructionParamType_Value fv \<Rightarrow>
          attempt (as_function (funcs s) fv) s (\<lambda>(f, func).
            let (cl, s1) = DataPool_GetClosure f func s;
                s2 = s1\<lparr>stack := Push (StackValueType_Counter 0 1)
                                  (Push (StackValueType_Value (Some (VClosure cl))) (stack s1))\<rparr>
            in case upvalue_table (closures s2 ! cl) of
                 None \<Rightarrow> Inr s2
               | Some u \<Rightarrow> GenerateClosure_loop u (upvalue_set func) s2)
      | _ \<Rightarrow> Inl (InvalidAccess, s))"

text \<open>\<^verbatim>\<open>vector::resize(n)\<close>: the first \<open>n\<close> elements, filled up with null pointers.\<close>

definition resize :: "nat \<Rightarrow> nat option list \<Rightarrow> nat option list" where
  "resize n xs = take n xs @ replicate (n - length xs) None"

text \<open>\<^verbatim>\<open>Return\<close>: the new size \<^verbatim>\<open>nest_tables_.size() - call_info.callee_tables\<close> is
  computed in \<^verbatim>\<open>std::size_t\<close>.\<close>

definition Return :: "machine \<Rightarrow> result" where
  "Return s =
     attempt (vector_back (call_stack s)) s (\<lambda>call_info.
       Inr (s\<lparr>ins_base := caller_base call_info,
              ins_count := caller_total call_info,
              ins_current := caller_offset call_info,
              nest_tables :=
                resize (unat (word_of_nat (length (nest_tables s)) - callee_tables call_info))
                  (nest_tables s),
              call_stack := butlast (call_stack s)\<rparr>))"

text \<open>The loop of \<^verbatim>\<open>GenerateArgTable\<close>; \<open>arg\<close> is the new table.\<close>

function GenerateArgTable_loop :: "nat \<Rightarrow> int \<Rightarrow> int \<Rightarrow> int \<Rightarrow> int \<Rightarrow> machine \<Rightarrow> result" where
  "GenerateArgTable_loop arg index arg_index cur tot s =
     (if cur < tot then
        (case GetStackValue (stack s) index of
           Inl e \<Rightarrow> Inl (e, s)
         | Inr arg_value \<Rightarrow>
             (case slot_value arg_value of
                Inl e \<Rightarrow> Inl (e, s)
              | Inr v \<Rightarrow>
                  (case Table_Assign (tables s) (Some arg) (Some (VNumber arg_index)) v of
                     Inl e \<Rightarrow> Inl (e, s)
                   | Inr ts \<Rightarrow>
                       GenerateArgTable_loop arg (index + 1) (arg_index + 1) (cur + 1) tot
                         (s\<lparr>tables := ts\<rparr>))))
      else Inr s)"
  by pat_completeness auto
termination
  by (relation "measure (\<lambda>(arg, index, arg_index, cur, tot, s). nat (tot - cur))") auto

declare GenerateArgTable_loop.simps [simp del]

definition GenerateArgTable :: "machine \<Rightarrow> result" where
  "GenerateArgTable s =
     (let (arg, s1) = DataPool_GetTable s in
      case Top (stack s1) of
        None \<Rightarrow> Inl (NullDereference, s1)
      | Some sv \<Rightarrow>
          attempt (slot_counter sv) s1 (\<lambda>(cur, tot).
            case GenerateArgTable_loop arg (- 1 - (tot - cur)) 1 cur tot s1 of
              Inl e \<Rightarrow> Inl e
            | Inr s2 \<Rightarrow>
                let s3 = s2\<lparr>stack := (stack s2)[length (stack s2) - 1 := StackValueType_Counter tot tot]\<rparr>
                in attempt (vector_back (nest_tables s3)) s3 (\<lambda>local.
                   attempt (Table_Assign (tables s3) local (Some (VString ''arg'')) (Some (VTable arg))) s3
                    (\<lambda>ts. Inr (s3\<lparr>tables := ts\<rparr>)))))"

text \<open>The loop of \<^verbatim>\<open>MergeCounter\<close>: slot \<open>index + 1\<close> is copied over slot \<open>index\<close>.\<close>

function MergeCounter_loop :: "int \<Rightarrow> int \<Rightarrow> int \<Rightarrow> machine \<Rightarrow> result" where
  "MergeCounter_loop i counter1 index s =
     (if i < counter1 then
        (case stack_index (stack s) index of
           Inl e \<Rightarrow> Inl (e, s)
         | Inr dst \<Rightarrow>
             (case GetStackValue (stack s) (index + 1) of
                Inl e \<Rightarrow> Inl (e, s)
              | Inr src \<Rightarrow>
                  MergeCounter_loop (i + 1) counter1 (index + 1) (s\<lparr>stack := (stack s)[dst := src]\<rparr>)))
      else Inr s)"
  by pat_completeness auto
termination
  by (relation "measure (\<lambda>(i, counter1, index, s). nat (counter1 - i))") auto

declare MergeCounter_loop.simps [simp del]

definition MergeCounter :: "machine \<Rightarrow> result" where
  "MergeCounter s =
     attempt (GetStackValue (stack s) (- 1)) s (\<lambda>sv1.
     attempt (slot_counter sv1) s (\<lambda>(cur1, counter1).
       let index = - 1 - counter1 - 1 in
       attempt (GetStackValue (stack s) index) s (\<lambda>sv2.
       attempt (slot_counter sv2) s (\<lambda>(cur2, counter2).
         case MergeCounter_loop 0 counter1 index s of
           Inl e \<Rightarrow> Inl e
         | Inr s1 \<Rightarrow>
             attempt (Pop 2 (stack s1)) s1 (\<lambda>stk.
               Inr (s1\<lparr>stack := Push (StackValueType_Counter 0 (counter1 + counter2)) stk\<rparr>))))))"

text \<open>The loop of \<^verbatim>\<open>DuplicateCounter\<close>: the slot at \<open>index\<close> is copied to a new top slot.\<close>

function DuplicateCounter_loop :: "int \<Rightarrow> int \<Rightarrow> int \<Rightarrow> machine \<Rightarrow> result" where
  "DuplicateCounter_loop i tot index s =
     (if i < tot then
        (case GetStackValue (stack s) index of
           Inl e \<Rightarrow> Inl (e, s)
         | Inr src \<Rightarrow>
             DuplicateCounter_loop (i + 1) tot (index + 1) (s\<lparr>stack := Push src (stack s)\<rparr>))
      else Inr s)"
  by pat_completeness auto
termination
  by (relation "measure (\<lambda>(i, tot, index, s). nat (tot - i))") auto

declare DuplicateCounter_loop.simps [simp del]

definition DuplicateCounter :: "machine \<Rightarrow> result" where
  "DuplicateCounter s =
     attempt (top_counter (stack s)) s (\<lambda>(cur, tot).
       let stack_size = int (length (stack s));
           index = stack_size - tot - 1
       in case DuplicateCounter_loop 0 tot index s of
            Inl e \<Rightarrow> Inl e
          | Inr s1 \<Rightarrow> Inr (s1\<lparr>stack := Push (StackValueType_Counter 0 tot) (stack s1)\<rparr>))"

text \<open>The bootstrap \<^verbatim>\<open>native_func_ret_\<close> built by the constructor: one instruction, a
  \<^verbatim>\<open>Ret\<close> (its parameter is never read).\<close>

definition native_func_ret :: "Instruction list" where
  "native_func_ret = [\<lparr>op_code = OpCode_Ret, param_a = InstructionParamType_Value None\<rparr>]"

text \<open>The instructions of a closure are those of its function.\<close>

definition Closure_GetInstructions :: "Function list \<Rightarrow> Closure \<Rightarrow> error + Instruction list" where
  "Closure_GetInstructions fs cl =
     (if closure_func cl < length fs then Inr (instructions (fs ! closure_func cl))
      else Inl InvalidAccess)"

definition Call :: "machine \<Rightarrow> result" where
  "Call s =
     attempt (top_counter (stack s)) s (\<lambda>(pcur, ptotal).
     attempt (GetStackValue (stack s) (- 1 - ptotal - 1)) s (\<lambda>sv.
       case sv of
         StackValueType_Value x \<Rightarrow> Inl (AssertionFailed, s)
       | StackValueType_Counter ccur ctotal \<Rightarrow>
           if ctotal \<noteq> 1 then Inl (AssertionFailed, s)
           else
             attempt (GetStackValue (stack s) (- 1 - ptotal - 2)) s (\<lambda>csv.
             attempt (slot_value csv) s (\<lambda>callee.
               let s1 = s\<lparr>call_stack := call_stack s @
                            [new_CallStackInfo (ins_base s) (ins_count s) (ins_current s) callee]\<rparr>
               in case callee of
                    None \<Rightarrow> Inl (NullDereference, s1)
                  | Some c \<Rightarrow>
                      if Type c = TYPE_FUNCTION then
                        attempt (as_closure (closures s1) c) s1 (\<lambda>cl.
                        attempt (Closure_GetInstructions (funcs s1) cl) s1 (\<lambda>code.
                          Inr (s1\<lparr>ins_base := code, ins_count := int (length code),
                                  ins_current := - 1\<rparr>)))
                      else if Type c = TYPE_NATIVE_FUNCTION then
                        (case c of
                           VNativeFunction n \<Rightarrow>
                             (case native s1 n (stack s1, tables s1) of
                                Inl msg \<Rightarrow> Inl (NativeRaised msg, s1)
                              | Inr (stk, ts) \<Rightarrow>
                                  Inr (s1\<lparr>stack := stk, tables := ts,
                                          ins_base := native_func_ret,
                                          ins_count := int (length native_func_ret),
                                          ins_current := - 1\<rparr>))
                         | _ \<Rightarrow> Inl (InvalidAccess, s1))
                      else Inl (RuntimeError (''attempt to call '' @ Name c), s1)))))"

definition AddLocalTable :: "machine \<Rightarrow> result" where
  "AddLocalTable s =
     (let (t, s1) = DataPool_GetTable s;
          s2 = s1\<lparr>nest_tables := nest_tables s1 @ [Some t]\<rparr>
      in attempt (vector_back (call_stack s2)) s2 (\<lambda>info.
           Inr (s2\<lparr>call_stack := butlast (call_stack s2) @
                       [info\<lparr>callee_tables := callee_tables info + 1\<rparr>]\<rparr>)))"

definition DelLocalTable :: "machine \<Rightarrow> result" where
  "DelLocalTable s =
     (if nest_tables s = [] then Inl (InvalidAccess, s)
      else
        let s1 = s\<lparr>nest_tables := butlast (nest_tables s)\<rparr>
        in attempt (vector_back (call_stack s1)) s1 (\<lambda>info.
             Inr (s1\<lparr>call_stack := butlast (call_stack s1) @
                         [info\<lparr>callee_tables := callee_tables info - 1\<rparr>]\<rparr>)))"

definition AddGlobalTable :: "machine \<Rightarrow> result" where
  "AddGlobalTable s =
     Inr (s\<lparr>nest_tables := nest_tables s @ [global_table s],
            call_stack := call_stack s @ [(new_CallStackInfo [] 0 0 None)\<lparr>callee_tables := 1\<rparr>]\<rparr>)"

definition DelGlobalTable :: "machine \<Rightarrow> result" where
  "DelGlobalTable s =
     (if nest_tables s = [] then Inl (InvalidAccess, s)
      else
        let s1 = s\<lparr>nest_tables := butlast (nest_tables s)\<rparr>
        in if call_stack s1 = [] then Inl (InvalidAccess, s1)
           else Inr (s1\<lparr>call_stack := butlast (call_stack s1)\<rparr>))"

section \<open>The dispatch loop\<close>

text \<open>The \<^verbatim>\<open>switch\<close> of \<^verbatim>\<open>Run\<close>: one handler per opcode, none for any other opcode.\<close>

fun dispatch :: "Instruction \<Rightarrow> machine \<Rightarrow> result" where
  "dispatch ins s =
     (case op_code ins of
        OpCode_Assign \<Rightarrow> Assign s
      | OpCode_CleanStack \<Rightarrow> CleanStack s
      | OpCode_GetLocalTable \<Rightarrow> GetLocalTable s
      | OpCode_GetTable \<Rightarrow> GetTable ins s
      | OpCode_GetTableValue \<Rightarrow> GetTableValue ins s
      | OpCode_Push \<Rightarrow> DoPush ins s
      | OpCode_GenerateClosure \<Rightarrow> GenerateClosure ins s
      | OpCode_Ret \<Rightarrow> Return s
      | OpCode_GenerateArgTable \<Rightarrow> GenerateArgTable s
      | OpCode_MergeCounter \<Rightarrow> MergeCounter s
      | OpCode_ResetCounter \<Rightarrow> ResetCounter s
      | OpCode_DuplicateCounter \<Rightarrow> DuplicateCounter s
      | OpCode_Call \<Rightarrow> Call s
      | OpCode_AddLocalTable \<Rightarrow> AddLocalTable s
      | OpCode_DelLocalTable \<Rightarrow> DelLocalTable s
      | OpCode_AddGlobalTable \<Rightarrow> AddGlobalTable s
      | OpCode_DelGlobalTable \<Rightarrow> DelGlobalTable s
      | OpCode_Other n \<Rightarrow> Inr s)"

text \<open>\<^verbatim>\<open>&ins_base_[ins_current_]\<close>: the instruction the loop is at.\<close>

definition fetch :: "machine \<Rightarrow> error + Instruction" where
  "fetch s =
     (if 0 \<le> ins_current s \<and> ins_current s < int (length (ins_base s))
      then Inr (ins_base s ! nat (ins_current s)) else Inl InvalidAccess)"

text \<open>One round of the loop body: fetch, dispatch, \<^verbatim>\<open>++ins_current_\<close>.\<close>

definition step :: "machine \<Rightarrow> result" where
  "step s =
     attempt (fetch s) s (\<lambda>ins.
       case dispatch ins s of
         Inl e \<Rightarrow> Inl e
       | Inr s1 \<Rightarrow> Inr (s1\<lparr>ins_current := ins_current s1 + 1\<rparr>))"

text \<open>The loop of \<^verbatim>\<open>Run\<close>, which need not terminate: with fuel, \<open>None\<close> when the fuel
  runs out before the loop is left.\<close>

fun Run_loop :: "nat \<Rightarrow> machine \<Rightarrow> result option" where
  "Run_loop 0 s = None"
| "Run_loop (Suc fuel) s =
     (if ins_current s < ins_count s then
        (case step s of Inl e \<Rightarrow> Some (Inl e) | Inr s1 \<Rightarrow> Run_loop fuel s1)
      else Some (Inr s))"

definition Run :: "nat \<Rightarrow> Instruction list \<Rightarrow> machine \<Rightarrow> result option" where
  "Run fuel boot s =
     Run_loop fuel (s\<lparr>ins_base := boot, ins_count := int (length boot), ins_current := 0\<rparr>)"

text \<open>\<open>exec k s\<close>: the state after exactly \<open>k\<close> rounds of the loop from \<open>s\<close>, when the
  loop makes that many rounds and none of them throws.\<close>

fun exec :: "nat \<Rightarrow> machine \<Rightarrow> machine option" where
  "exec 0 s = Some s"
| "exec (Suc k) s =
     (if ins_current s < ins_count s then
        (case step s of Inl e \<Rightarrow> None | Inr s1 \<Rightarrow> exec k s1)
      else None)"

section \<open>Measures for the call and scope stacks\<close>

text \<open>The two stacks a call and its return must leave as they were.\<close>

definition frames :: "machine \<Rightarrow> nat option list \<times> CallStackInfo list" where
  "frames s = (nest_tables s, call_stack s)"

text \<open>\<open>open_tables d s\<close>: the sum of \<^verbatim>\<open>callee_tables\<close> over the call records above the
  lowest \<open>d\<close>, in \<^verbatim>\<open>std::size_t\<close> arithmetic. \<open>local_effect s\<close>: what the instruction at
  \<open>ins_current\<close> adds to the scope tables of its own frame (\<open>1\<close> for
  \<^verbatim>\<open>AddLocalTable\<close>, \<open>-1\<close> for \<^verbatim>\<open>DelLocalTable\<close>); \<open>own_effect d s\<close> counts it only
  when the frame on top of the call stack is the one opened at depth \<open>d\<close>.
  \<open>activation_tables d k s\<close> adds these up over \<open>k\<close> rounds of the loop from \<open>s\<close>:
  the scope tables that the activation at depth \<open>d\<close> pushed with \<^verbatim>\<open>AddLocalTable\<close>
  minus those it removed with \<^verbatim>\<open>DelLocalTable\<close>.\<close>

definition open_tables :: "nat \<Rightarrow> machine \<Rightarrow> 64 word" where
  "open_tables d s = sum_list (map callee_tables (drop d (call_stack s)))"

definition local_effect :: "machine \<Rightarrow> int" where
  "local_effect s =
     (case fetch s of
        Inl e \<Rightarrow> 0
      | Inr ins \<Rightarrow>
          if op_code ins = OpCode_AddLocalTable then 1
          else if op_code ins = OpCode_DelLocalTable then - 1 else 0)"

definition own_effect :: "nat \<Rightarrow> machine \<Rightarrow> int" where
  "own_effect d s = (if length (call_stack s) = Suc d then local_effect s else 0)"

fun activation_tables :: "nat \<Rightarrow> nat \<Rightarrow> machine \<Rightarrow> int" where
  "activation_tables d 0 s = 0"
| "activation_tables d (Suc k) s =
     (case step s of
        Inl e \<Rightarrow> 0
      | Inr s1 \<Rightarrow> own_effect d s + activation_tables d k s1)"

section \<open>Instructions for an assignment\<close>

text \<open>The instructions that build, above the values of a right-hand side and their
  counter, the stack \<^verbatim>\<open>Assign\<close> expects for the key \<open>k\<close> of the innermost scope table,
  and then assign: \<^verbatim>\<open>GetLocalTable\<close> pushes the table and a counter, \<^verbatim>\<open>Push\<close> the
  name. \<open>assign_keys_code\<close> does so for several keys in turn, as a multiple assignment
  does.\<close>

definition assign_key_code :: "val \<Rightarrow> Instruction list" where
  "assign_key_code k =
     [\<lparr>op_code = OpCode_GetLocalTable, param_a = InstructionParamType_Counter 0\<rparr>,
      \<lparr>op_code = OpCode_Push, param_a = InstructionParamType_Name (Some k)\<rparr>,
      \<lparr>op_code = OpCode_Assign, param_a = InstructionParamType_Counter 0\<rparr>]"

definition assign_keys_code :: "val list \<Rightarrow> Instruction list" where
  "assign_keys_code ks = concat (map assign_key_code ks)"

section \<open>Reading an upvalue at closure creation\<close>

text \<open>\<open>captured name s\<close>: what one round of the loop of \<^verbatim>\<open>GenerateClosure\<close> reads in
  state \<open>s\<close> for an upvalue name: the owner table that \<^verbatim>\<open>GetUpvalueKeyOwnerTable\<close>
  returns and the value \<^verbatim>\<open>GetTableValue\<close> finds there.\<close>

definition captured :: "ptr \<Rightarrow> machine \<Rightarrow> (nat \<times> ptr) option" where
  "captured name s =
     (case GetUpvalueKeyOwnerTable name s of
        Inl e \<Rightarrow> None
      | Inr (t, s1) \<Rightarrow>
          (case Table_GetValue (tables s1) (Some t) name of
             Inl e \<Rightarrow> None
           | Inr v \<Rightarrow> Some (t, v)))"

text \<open>No dangling pointer among those the owner resolution follows: the scope tables
  and the upvalue table of the current callee are tables below index \<open>u\<close>.\<close>

definition scope_pointers_below :: "nat \<Rightarrow> machine \<Rightarrow> bool" where
  "scope_pointers_below u s \<longleftrightarrow>
     (\<forall>a. Some a \<in> set (nest_tables s) \<longrightarrow> a < u) \<and>
     (\<forall>c cl w. call_stack s \<noteq> [] \<longrightarrow> callee (last (call_stack s)) = Some c \<longrightarrow>
        as_closure (closures s) c = Inr cl \<longrightarrow> upvalue_table cl = Some w \<longrightarrow> w < u)"

text \<open>The same reading written without the state the resolution returns; the two agree
  (\<open>captured_unfold\<close> below).\<close>

definition bound_value :: "val \<Rightarrow> machine \<Rightarrow> (nat \<times> ptr) option" where
  "bound_value k s =
     (case GetUpvalueKeyOwnerTable_loop (tables s) (Some k) (rev (nest_tables s))
             (callee_tables (last (call_stack s))) of
        Inl e \<Rightarrow> None
      | Inr (Some a) \<Rightarrow>
          (case Table_GetValue (tables s) (Some a) (Some k) of
             Inl e \<Rightarrow> None | Inr v \<Rightarrow> Some (a, v))
      | Inr None \<Rightarrow>
          (case callee (last (call_stack s)) of
             Some c \<Rightarrow>
               (case as_closure (closures s) c of
                  Inl e \<Rightarrow> None
                | Inr cl \<Rightarrow>
                    (case upvalue_table cl of
                       None \<Rightarrow> None
                     | Some w \<Rightarrow>
                         if Table_HaveKey (tables s) (Some w) (Some k) = Inr True then
                           (case Table_GetValue (tables s) (Some w) (Some k) of
                              Inl e \<Rightarrow> None | Inr v \<Rightarrow> Some (w, v))
                         else None))
           | None \<Rightarrow>
               if callee_tables (last (call_stack s)) \<noteq> 1 then None
               else
                 (case vector_back (nest_tables s) of
                    Inl e \<Rightarrow> None
                  | Inr None \<Rightarrow> None
                  | Inr (Some b) \<Rightarrow>
                      if b < length (tables s) \<and> k \<noteq> VNil then Some (b, Some VNil) else None)))"

section \<open>Example states\<close>

text \<open>The machine after construction and \<^verbatim>\<open>Init\<close>: the constructor sets the
  instruction base, count and offset to 0; the stacks are empty; the pool holds the
  global table of the state, and there is no native function.\<close>

definition VirtualMachine_new :: machine where
  "VirtualMachine_new =
     \<lparr>stack = [], tables = [Map.empty], closures = [], funcs = [], nest_tables = [],
      call_stack = [], ins_base = [], ins_count = 0, ins_current = 0,
      global_table = Some 0, native = (\<lambda>n x. Inl ''no native function'')\<rparr>"

text \<open>A function that opens one scope and returns, a native function that pushes one
  result, and the machine in the global frame (after \<^verbatim>\<open>AddGlobalTable\<close>) with that
  function, a closure of it, and a \<^verbatim>\<open>Call\<close> to run.\<close>

definition example_function :: Function where
  "example_function =
     \<lparr>instructions = [\<lparr>op_code = OpCode_AddLocalTable, param_a = InstructionParamType_Counter 0\<rparr>,
                      \<lparr>op_code = OpCode_Ret, param_a = InstructionParamType_Counter 0\<rparr>],
      upvalue_set = []\<rparr>"

definition example_native ::
  "nat \<Rightarrow> StackValue list \<times> Table list \<Rightarrow> string + StackValue list \<times> Table list" where
  "example_native n x =
     (case x of (stk, ts) \<Rightarrow>
        Inr (stk @ [StackValueType_Value (Some (VNumber 1)), StackValueType_Counter 0 1], ts))"

definition global_frame :: machine where
  "global_frame =
     VirtualMachine_new
       \<lparr>funcs := [example_function],
        closures := [\<lparr>closure_func = 0, upvalue_table = None\<rparr>],
        nest_tables := [Some 0],
        call_stack := [(new_CallStackInfo [] 0 0 None)\<lparr>callee_tables := 1\<rparr>],
        ins_base := [\<lparr>op_code = OpCode_Call, param_a = InstructionParamType_Counter 0\<rparr>],
        ins_count := 1,
        native := example_native\<rparr>"

text \<open>The global frame about to call \<open>c\<close> with one argument: the callee, its counter,
  the argument, the argument counter.\<close>

definition call_state :: "val \<Rightarrow> machine" where
  "call_state c =
     global_frame\<lparr>stack := [StackValueType_Value (Some c), StackValueType_Counter 0 1,
                             StackValueType_Value (Some (VNumber 5)), StackValueType_Counter 0 1]\<rparr>"

text \<open>The global frame about to assign the first of the values 10, 20 to the key
  \<open>a\<close> of table 0.\<close>

definition assign_state :: machine where
  "assign_state =
     global_frame\<lparr>stack := [StackValueType_Value (Some (VNumber 10)),
        StackValueType_Value (Some (VNumber 20)), StackValueType_Counter 0 2,
        StackValueType_Value (Some (VTable 0)), StackValueType_Counter 0 1,
        StackValueType_Value (Some (VString ''a''))]\<rparr>"

text \<open>The global frame at an instruction whose opcode the switch does not handle.\<close>

definition other_opcode_state :: machine where
  "other_opcode_state =
     global_frame\<lparr>ins_base := [\<lparr>op_code = OpCode_Other 0, param_a = InstructionParamType_Counter 0\<rparr>]\<rparr>"

text \<open>A function with the upvalue \<open>n\<close>; and the machine inside a call of a closure
  of it. The scope tables are the global table 0 and the table 1 of the caller, where
  \<open>n\<close> is 1, and the table 2 of the callee, which is empty; \<open>u\<close> is the upvalue table
  of the closure, and table 3 binds \<open>n\<close> to 5.\<close>

definition upvalue_function :: Function where
  "upvalue_function =
     \<lparr>instructions = [\<lparr>op_code = OpCode_Ret, param_a = InstructionParamType_Counter 0\<rparr>],
      upvalue_set = [Some (VString ''n'')]\<rparr>"

definition closure_frame :: "nat option \<Rightarrow> machine" where
  "closure_frame u =
     VirtualMachine_new
       \<lparr>tables := [Map.empty,
                   [VString ''n'' \<mapsto> Some (VNumber 1)],
                   Map.empty,
                   [VString ''n'' \<mapsto> Some (VNumber 5)]],
        closures := [\<lparr>closure_func = 0, upvalue_table = u\<rparr>],
        funcs := [upvalue_function],
        nest_tables := [Some 0, Some 1, Some 2],
        call_stack := [(new_CallStackInfo [] 0 0 None)\<lparr>callee_tables := 2\<rparr>,
                       (new_CallStackInfo [] 0 0 (Some (VClosure 0)))\<lparr>callee_tables := 1\<rparr>]\<rparr>"

text \<open>The instruction \<^verbatim>\<open>GetTable\<close> for the name \<open>n\<close>.\<close>

definition get_n :: Instruction where
  "get_n = \<lparr>op_code = OpCode_GetTable, param_a = InstructionParamType_Name (Some (VString ''n''))\<rparr>"

text \<open>The three states after \<open>call_state (VClosure 0)\<close>: inside the callee, after
  its \<^verbatim>\<open>AddLocalTable\<close>, and after its \<^verbatim>\<open>Ret\<close>.\<close>

definition call_state_1 :: machine where
  "call_state_1 =
     call_state (VClosure 0)
       \<lparr>call_stack := [(new_CallStackInfo [] 0 0 None)\<lparr>callee_tables := 1\<rparr>,
                       new_CallStackInfo (ins_base global_frame) 1 0 (Some (VClosure 0))],
        ins_base := instructions example_function, ins_count := 2, ins_current := 0\<rparr>"

definition call_state_2 :: machine where
  "call_state_2 =
     call_state_1
       \<lparr>tables := [Map.empty, Map.empty], nest_tables := [Some 0, Some 1],
        call_stack := [(new_CallStackInfo [] 0 0 None)\<lparr>callee_tables := 1\<rparr>,
                       (new_CallStackInfo (ins_base global_frame) 1 0 (Some (VClosure 0)))
                         \<lparr>callee_tables := 1\<rparr>],
        ins_current := 1\<rparr>"

definition call_state_3 :: machine where
  "call_state_3 =
     call_state_2
       \<lparr>nest_tables := [Some 0],
        call_stack := [(new_CallStackInfo [] 0 0 None)\<lparr>callee_tables := 1\<rparr>],
        ins_base := ins_base global_frame, ins_count := 1, ins_current := 1\<rparr>"

text \<open>The global frame about to run \<^verbatim>\<open>a, b, c = 10, 20\<close>.\<close>

definition multi_assign_state :: machine where
  "multi_assign_state =
     global_frame\<lparr>stack := [StackValueType_Value (Some (VNumber 10)),
        StackValueType_Value (Some (VNumber 20)), StackValueType_Counter 0 2],
       ins_base := assign_keys_code [VString ''a'', VString ''b'', VString ''c''],
       ins_count := 9\<rparr>"

text \<open>The global frame with \<open>n = 1\<close> in the global table, and the instruction that
  creates a closure of the function with the upvalue \<open>n\<close>.\<close>

definition capture_state :: machine where
  "capture_state =
     global_frame\<lparr>tables := [[VString ''n'' \<mapsto> Some (VNumber 1)]],
                  funcs := [upvalue_function]\<rparr>"

definition generate_closure :: Instruction where
  "generate_closure =
     \<lparr>op_code = OpCode_GenerateClosure, param_a = InstructionParamType_Value (Some (VFunction 0))\<rparr>"

section \<open>Auxiliary facts\<close>

lemma attempt_Inr: "attempt (Inr a) s f = f a"
  by (simp add: attempt_def)

lemma attempt_Inl: "attempt (Inl e) s f = Inl (e, s)"
  by (simp add: attempt_def)

lemma Top_snoc: "Top (xs @ [x]) = Some x"
  by (simp add: Top_def)

lemma top_counter_snoc: "top_counter (xs @ [StackValueType_Counter c t]) = Inr (c, t)"
  by (simp add: top_counter_def Top_def)

lemma top_value_snoc: "top_value (xs @ [StackValueType_Value v]) = Inr v"
  by (simp add: top_value_def Top_def)

lemma Pop_1_snoc: "Pop 1 (xs @ [x]) = Inr xs"
  by (simp add: Pop_def)

lemma Pop_2_snoc: "Pop 2 (xs @ [x, y]) = Inr xs"
  by (simp add: Pop_def)

lemma Pop_take:
  "0 \<le> n \<Longrightarrow> n \<le> int (length xs) \<Longrightarrow> Pop n xs = Inr (take (length xs - nat n) xs)"
  by (simp add: Pop_def)

section \<open>ResetCounter\<close>

text \<open>Claim C8, as the code has it. Let the top slot be a counter \<open>{cur, tot}\<close> with
  \<open>0 \<le> tot\<close> and at least \<open>tot - 1\<close> slots beneath it. When \<open>tot\<close> is 1 the
  handler returns at once: no slot changes, and the counter keeps its \<open>current\<close>. When
  \<open>tot\<close> is 0 a Nil value slot is pushed beneath a new counter \<open>{0, 1}\<close>. When \<open>tot\<close>
  is greater than 1 the top \<open>tot - 1\<close> slots beneath the counter are popped and the
  counter is replaced by \<open>{0, 1}\<close>.\<close>

theorem ResetCounter_total_one:
  assumes "stack s = rest @ [StackValueType_Counter cur tot]"
    and "0 \<le> tot" and "tot - 1 \<le> int (length rest)"
  shows "ResetCounter s =
     Inr (s\<lparr>stack :=
            (if tot = 1 then rest @ [StackValueType_Counter cur 1]
             else if tot = 0 then
               rest @ [StackValueType_Value (Some VNil), StackValueType_Counter 0 1]
             else take (length rest - nat (tot - 1)) rest @ [StackValueType_Counter 0 1])\<rparr>)"
proof -
  consider "tot = 1" | "tot = 0" | "1 < tot" using assms(2) by linarith
  then show ?thesis
  proof cases
    case 1
    have "s\<lparr>stack := stack s\<rparr> = s" by simp
    with 1 assms(1) show ?thesis
      by (simp add: ResetCounter_def top_counter_snoc attempt_Inr)
  next
    case 2
    with assms(1) show ?thesis
      by (simp add: ResetCounter_def top_counter_snoc attempt_Inr Pop_1_snoc Push_def)
  next
    case 3
    with assms show ?thesis
      by (simp add: ResetCounter_def top_counter_snoc attempt_Inr Pop_1_snoc Push_def Pop_take)
  qed
qed

text \<open>The theorem at a counter of total 3 above three values: two values are popped.\<close>

theorem ResetCounter_total_one_witness:
  "stack (VirtualMachine_new\<lparr>stack := [StackValueType_Value (Some (VNumber 7)),
        StackValueType_Value (Some (VNumber 8)), StackValueType_Value (Some (VNumber 9)),
        StackValueType_Counter 0 3]\<rparr>)
     = [StackValueType_Value (Some (VNumber 7)),
        StackValueType_Value (Some (VNumber 8)), StackValueType_Value (Some (VNumber 9))]
        @ [StackValueType_Counter 0 3]
   \<and> (0::int) \<le> 3
   \<and> (3::int) - 1 \<le> int (length [StackValueType_Value (Some (VNumber 7)),
        StackValueType_Value (Some (VNumber 8)), StackValueType_Value (Some (VNumber 9))])
   \<and> ResetCounter (VirtualMachine_new\<lparr>stack := [StackValueType_Value (Some (VNumber 7)),
        StackValueType_Value (Some (VNumber 8)), StackValueType_Value (Some (VNumber 9)),
        StackValueType_Counter 0 3]\<rparr>)
     = Inr (VirtualMachine_new\<lparr>stack := [StackValueType_Value (Some (VNumber 7)),
        StackValueType_Counter 0 1]\<rparr>)"
  using ResetCounter_total_one [of "VirtualMachine_new\<lparr>stack := [StackValueType_Value (Some (VNumber 7)),
        StackValueType_Value (Some (VNumber 8)), StackValueType_Value (Some (VNumber 9)),
        StackValueType_Counter 0 3]\<rparr>" "[StackValueType_Value (Some (VNumber 7)),
        StackValueType_Value (Some (VNumber 8)), StackValueType_Value (Some (VNumber 9))]" 0 3]
  by simp

text \<open>Claim C8 as stated fails: a counter \<open>{1, 1}\<close> on top (a single value that an
  \<^verbatim>\<open>Assign\<close> has consumed) is left as it is, so its \<open>current\<close> is 1 after
  \<^verbatim>\<open>ResetCounter\<close>, not 0.\<close>

theorem ResetCounter_keeps_current_counterexample:
  "ResetCounter (VirtualMachine_new\<lparr>stack := [StackValueType_Value (Some (VNumber 7)),
        StackValueType_Counter 1 1]\<rparr>)
     = Inr (VirtualMachine_new\<lparr>stack := [StackValueType_Value (Some (VNumber 7)),
        StackValueType_Counter 1 1]\<rparr>)
   \<and> Top (stack (VirtualMachine_new\<lparr>stack := [StackValueType_Value (Some (VNumber 7)),
        StackValueType_Counter 1 1]\<rparr>)) \<noteq> Some (StackValueType_Counter 0 1)"
  by (simp add: ResetCounter_def top_counter_def Top_def attempt_def)

lemma GetStackValue_run:assumes "0 \<le> cur" "cur < int (length vals)"
  shows "GetStackValue (bottom @ map StackValueType_Value vals @ [c]) (cur - int (length vals) - 1)
         = Inr (StackValueType_Value (vals ! nat cur))"
proof -
  have "nat (int (length bottom) + cur) = length bottom + nat cur" using assms by linarith
  moreover have "nat cur < length vals" using assms by linarith
  ultimately show ?thesis using assms
    by (simp add: GetStackValue_def stack_index_def nth_append)
qed

lemma Assign_expected:
  assumes shape: "stack s = bottom @ map StackValueType_Value vals @
            [StackValueType_Counter cur tot, StackValueType_Value (Some (VTable a)), x,
             StackValueType_Value (Some key)]"
    and len: "int (length vals) = tot" and cur: "0 \<le> cur"
    and a: "a < length (tables s)" and key: "key \<noteq> VNil"
  shows "Assign s =
     Inr (s\<lparr>stack := bottom @ map StackValueType_Value vals @
                 [StackValueType_Counter (if cur < tot then cur + 1 else cur) tot],
            tables := (tables s)[a := (tables s ! a)
                        (key \<mapsto> (if cur < tot then vals ! nat cur else Some VNil))]\<rparr>)"
proof -
  let ?run = "bottom @ map StackValueType_Value vals"
  have s0: "stack s = (?run @ [StackValueType_Counter cur tot, StackValueType_Value (Some (VTable a))])
              @ [x, StackValueType_Value (Some key)]"
    using shape by simp
  have tv: "top_value (stack s) = Inr (Some key)"
    using top_value_snoc [of "?run @ [StackValueType_Counter cur tot, StackValueType_Value (Some (VTable a)), x]" "Some key"]
      shape by simp
  have p2: "Pop 2 (stack s) = Inr (?run @ [StackValueType_Counter cur tot, StackValueType_Value (Some (VTable a))])"
    unfolding s0 by (rule Pop_2_snoc)
  have tv2: "top_value (?run @ [StackValueType_Counter cur tot, StackValueType_Value (Some (VTable a))]) = Inr (Some (VTable a))"
    using top_value_snoc [of "?run @ [StackValueType_Counter cur tot]" "Some (VTable a)"] by simp
  have p1: "Pop 1 (?run @ [StackValueType_Counter cur tot, StackValueType_Value (Some (VTable a))])
             = Inr (?run @ [StackValueType_Counter cur tot])"
    using Pop_1_snoc [of "?run @ [StackValueType_Counter cur tot]" "StackValueType_Value (Some (VTable a))"] by simp
  have tc: "top_counter (?run @ [StackValueType_Counter cur tot]) = Inr (cur, tot)"
    using top_counter_snoc [of ?run cur tot] by simp
  have upd: "(?run @ [StackValueType_Counter cur tot])[length (?run @ [StackValueType_Counter cur tot]) - 1 := c]
             = ?run @ [c]" for c
    by (simp add: list_update_append)
  have gv: "cur < tot \<Longrightarrow> GetStackValue (?run @ [c]) (cur - tot - 1) = Inr (StackValueType_Value (vals ! nat cur))" for c
    using GetStackValue_run [of cur vals bottom c] cur len by simp
  show ?thesis
  proof (cases "cur < tot")
    case True
    show ?thesis
      unfolding Assign_def tv p2 attempt_Inr Let_def
      apply (simp only: machine.simps tv2 p1 attempt_Inr tc prod.case True if_True upd gv [OF True])
      apply (simp add: slot_value_def as_table_def Table_Assign_def a key attempt_Inr)
      done
  next
    case False
    show ?thesis
      unfolding Assign_def tv p2 attempt_Inr Let_def
      apply (simp only: machine.simps tv2 p1 attempt_Inr tc prod.case False if_False)
      apply (simp add: slot_value_def as_table_def Table_Assign_def a key attempt_Inr False)
      done
  qed
qed

lemma Call_expected:
  assumes shape: "stack s = rest @ [StackValueType_Value cv, StackValueType_Counter ccur 1] @
            args @ [StackValueType_Counter pcur ptotal]"
    and len: "int (length args) = ptotal"
  shows "Call s =
     (let s1 = s\<lparr>call_stack := call_stack s @
                  [new_CallStackInfo (ins_base s) (ins_count s) (ins_current s) cv]\<rparr>
      in case cv of
           None \<Rightarrow> Inl (NullDereference, s1)
         | Some c \<Rightarrow>
             if Type c = TYPE_FUNCTION then
               attempt (as_closure (closures s1) c) s1 (\<lambda>cl.
               attempt (Closure_GetInstructions (funcs s1) cl) s1 (\<lambda>code.
                 Inr (s1\<lparr>ins_base := code, ins_count := int (length code), ins_current := - 1\<rparr>)))
             else if Type c = TYPE_NATIVE_FUNCTION then
               (case c of
                  VNativeFunction n \<Rightarrow>
                    (case native s1 n (stack s1, tables s1) of
                       Inl msg \<Rightarrow> Inl (NativeRaised msg, s1)
                     | Inr (stk, ts) \<Rightarrow>
                         Inr (s1\<lparr>stack := stk, tables := ts, ins_base := native_func_ret,
                                 ins_count := int (length native_func_ret), ins_current := - 1\<rparr>))
                | _ \<Rightarrow> Inl (InvalidAccess, s1))
             else Inl (RuntimeError (''attempt to call '' @ Name c), s1))"
proof -
  have tc: "top_counter (stack s) = Inr (pcur, ptotal)"
    using top_counter_snoc [of "rest @ [StackValueType_Value cv, StackValueType_Counter ccur 1] @ args" pcur ptotal]
      shape by simp
  have n: "length (stack s) = length rest + length args + 3"
    using shape by simp
  have i1: "stack_index (stack s) (- 1 - ptotal - 1) = Inr (Suc (length rest))"
    using len n by (auto simp: stack_index_def Let_def)
  have i2: "stack_index (stack s) (- 1 - ptotal - 2) = Inr (length rest)"
    using len n by (auto simp: stack_index_def Let_def)
  have g1: "GetStackValue (stack s) (- 1 - ptotal - 1) = Inr (StackValueType_Counter ccur 1)"
    unfolding GetStackValue_def i1 using shape by (simp add: nth_append)
  have g2: "GetStackValue (stack s) (- 1 - ptotal - 2) = Inr (StackValueType_Value cv)"
    unfolding GetStackValue_def i2 using shape by (simp add: nth_append)
  show ?thesis
    unfolding Call_def tc attempt_Inr prod.case g1 g2
    by (simp add: slot_value_def attempt_Inr)
qed

lemma call_state_shape:
  "stack (call_state c) = [] @ [StackValueType_Value (Some c), StackValueType_Counter 0 1] @
      [StackValueType_Value (Some (VNumber 5))] @ [StackValueType_Counter 0 1]"
  by (simp add: call_state_def global_frame_def VirtualMachine_new_def)

section \<open>Call\<close>

text \<open>Claim C5. Let \<^verbatim>\<open>Call\<close> find the stack it expects: the callee value \<open>c\<close>, its
  counter of total 1, the arguments, the argument counter on top. Then the runtime error
  \<open>attempt to call <type name of c>\<close> is raised exactly when \<open>c\<close> is neither of
  function type nor a native function, and no runtime error of \<^verbatim>\<open>Call\<close> is raised
  otherwise. For a closure of the pool, execution is redirected to the instructions of
  the closure with the offset \<open>-1\<close>; for a native function that returns, to the
  bootstrap holding the single \<^verbatim>\<open>Ret\<close>, with the stack the native function left.\<close>

theorem Call_attempt_to_call:
  assumes "stack s = rest @ [StackValueType_Value (Some c), StackValueType_Counter ccur 1] @
            args @ [StackValueType_Counter pcur ptotal]"
    and "int (length args) = ptotal"
  shows "((\<exists>s'. Call s = Inl (RuntimeError (''attempt to call '' @ Name c), s')) \<longleftrightarrow>
            (Type c \<noteq> TYPE_FUNCTION \<and> Type c \<noteq> TYPE_NATIVE_FUNCTION))
       \<and> (\<forall>msg s'. Call s = Inl (RuntimeError msg, s') \<longrightarrow>
            Type c \<noteq> TYPE_FUNCTION \<and> Type c \<noteq> TYPE_NATIVE_FUNCTION)
       \<and> (\<forall>a. c = VClosure a \<and> a < length (closures s)
              \<and> closure_func (closures s ! a) < length (funcs s) \<longrightarrow>
            Call s = Inr (s\<lparr>call_stack := call_stack s @
                             [new_CallStackInfo (ins_base s) (ins_count s) (ins_current s) (Some c)],
                           ins_base := instructions (funcs s ! closure_func (closures s ! a)),
                           ins_count := int (length (instructions (funcs s ! closure_func (closures s ! a)))),
                           ins_current := - 1\<rparr>))
       \<and> (\<forall>n stk ts. c = VNativeFunction n \<and> native s n (stack s, tables s) = Inr (stk, ts) \<longrightarrow>
            Call s = Inr (s\<lparr>call_stack := call_stack s @
                             [new_CallStackInfo (ins_base s) (ins_count s) (ins_current s) (Some c)],
                           stack := stk, tables := ts,
                           ins_base := [\<lparr>op_code = OpCode_Ret, param_a = InstructionParamType_Value None\<rparr>],
                           ins_count := 1, ins_current := - 1\<rparr>))"
proof -
  note ce = Call_expected [OF assms]
  have 1: "(\<exists>s'. Call s = Inl (RuntimeError (''attempt to call '' @ Name c), s')) \<longleftrightarrow>
            (Type c \<noteq> TYPE_FUNCTION \<and> Type c \<noteq> TYPE_NATIVE_FUNCTION)"
    unfolding ce
    by (auto simp: Let_def attempt_def as_closure_def Closure_GetInstructions_def
             split: sum.splits val.splits prod.splits if_splits)
  have 2: "\<forall>msg s'. Call s = Inl (RuntimeError msg, s') \<longrightarrow>
            Type c \<noteq> TYPE_FUNCTION \<and> Type c \<noteq> TYPE_NATIVE_FUNCTION"
    unfolding ce
    by (auto simp: Let_def attempt_def as_closure_def Closure_GetInstructions_def
             split: sum.splits val.splits prod.splits if_splits)
  have 3: "\<forall>a. c = VClosure a \<and> a < length (closures s)
              \<and> closure_func (closures s ! a) < length (funcs s) \<longrightarrow>
            Call s = Inr (s\<lparr>call_stack := call_stack s @
                             [new_CallStackInfo (ins_base s) (ins_count s) (ins_current s) (Some c)],
                           ins_base := instructions (funcs s ! closure_func (closures s ! a)),
                           ins_count := int (length (instructions (funcs s ! closure_func (closures s ! a)))),
                           ins_current := - 1\<rparr>)"
    unfolding ce by (simp add: Let_def attempt_Inr as_closure_def Closure_GetInstructions_def)
  have 4: "\<forall>n stk ts. c = VNativeFunction n \<and> native s n (stack s, tables s) = Inr (stk, ts) \<longrightarrow>
            Call s = Inr (s\<lparr>call_stack := call_stack s @
                             [new_CallStackInfo (ins_base s) (ins_count s) (ins_current s) (Some c)],
                           stack := stk, tables := ts,
                           ins_base := [\<lparr>op_code = OpCode_Ret, param_a = InstructionParamType_Value None\<rparr>],
                           ins_count := 1, ins_current := - 1\<rparr>)"
    unfolding ce by (simp add: Let_def native_func_ret_def)
  from 1 2 3 4 show ?thesis by blast
qed

text \<open>The theorem at a number, a closure and a native function as callee.\<close>

theorem Call_attempt_to_call_witness:
  "(\<exists>s'. Call (call_state (VNumber 3)) = Inl (RuntimeError ''attempt to call number'', s'))
   \<and> Call (call_state (VClosure 0)) =
       Inr (call_state (VClosure 0)
             \<lparr>call_stack := call_stack (call_state (VClosure 0)) @
                 [new_CallStackInfo (ins_base global_frame) 1 0 (Some (VClosure 0))],
              ins_base := instructions example_function, ins_count := 2, ins_current := - 1\<rparr>)
   \<and> Call (call_state (VNativeFunction 0)) =
       Inr (call_state (VNativeFunction 0)
             \<lparr>call_stack := call_stack (call_state (VNativeFunction 0)) @
                 [new_CallStackInfo (ins_base global_frame) 1 0 (Some (VNativeFunction 0))],
              stack := stack (call_state (VNativeFunction 0)) @
                 [StackValueType_Value (Some (VNumber 1)), StackValueType_Counter 0 1],
              ins_base := [\<lparr>op_code = OpCode_Ret, param_a = InstructionParamType_Value None\<rparr>],
              ins_count := 1, ins_current := - 1\<rparr>)"
proof -
  have l: "int (length [StackValueType_Value (Some (VNumber 5))]) = 1" by simp
  show ?thesis
    using Call_attempt_to_call [OF call_state_shape l, of "VNumber 3"]
      Call_attempt_to_call [OF call_state_shape l, of "VClosure 0"]
      Call_attempt_to_call [OF call_state_shape l, of "VNativeFunction 0"]
    by (simp add: call_state_def global_frame_def VirtualMachine_new_def example_function_def
          example_native_def)
qed

text \<open>Claim C10. When \<^verbatim>\<open>Call\<close> raises \<open>attempt to call\<close>, the state at the throw has
  the new call record on the call stack: the caller's instruction base, count and
  offset, the invalid callee, and \<open>callee_tables = 0\<close>. Nothing else has changed.\<close>

theorem Call_error_keeps_record:
  assumes "stack s = rest @ [StackValueType_Value (Some c), StackValueType_Counter ccur 1] @
            args @ [StackValueType_Counter pcur ptotal]"
    and "int (length args) = ptotal"
    and "Type c \<noteq> TYPE_FUNCTION" and "Type c \<noteq> TYPE_NATIVE_FUNCTION"
  shows "Call s = Inl (RuntimeError (''attempt to call '' @ Name c),
            s\<lparr>call_stack := call_stack s @
                 [\<lparr>caller_base = ins_base s, caller_total = ins_count s,
                   caller_offset = ins_current s, callee = Some c, callee_tables = 0\<rparr>]\<rparr>)"
  unfolding Call_expected [OF assms(1,2)] using assms(3,4)
  by (simp add: Let_def new_CallStackInfo_def)

text \<open>The theorem at a number as callee.\<close>

theorem Call_error_keeps_record_witness:
  "Type (VNumber 7) \<noteq> TYPE_FUNCTION \<and> Type (VNumber 7) \<noteq> TYPE_NATIVE_FUNCTION
   \<and> Call (call_state (VNumber 7)) =
       Inl (RuntimeError ''attempt to call number'',
            call_state (VNumber 7)
              \<lparr>call_stack := [(new_CallStackInfo [] 0 0 None)\<lparr>callee_tables := 1\<rparr>,
                  \<lparr>caller_base = [\<lparr>op_code = OpCode_Call, param_a = InstructionParamType_Counter 0\<rparr>],
                   caller_total = 1, caller_offset = 0, callee = Some (VNumber 7),
                   callee_tables = 0\<rparr>]\<rparr>)"
proof -
  have l: "int (length [StackValueType_Value (Some (VNumber 5))]) = 1" by simp
  show ?thesis
    using Call_error_keeps_record [OF call_state_shape l, of "VNumber 7"]
    by (simp add: call_state_def global_frame_def VirtualMachine_new_def)
qed

lemma Assign_length:
  "Assign s = Inr s' \<Longrightarrow> length (stack s') + 3 = length (stack s)"
  by (auto simp: Assign_def attempt_def Pop_def top_value_def top_counter_def Top_def Let_def
      split: sum.splits option.splits StackValue.splits if_splits prod.splits)

lemma CleanStack_expected:
  assumes "stack s = rest @ [StackValueType_Counter cur n]" and "0 \<le> n" and "n \<le> int (length rest)"
  shows "CleanStack s = Inr (s\<lparr>stack := take (length rest - nat n) rest\<rparr>)"
proof (cases "n = 0")
  case True
  with assms show ?thesis
    by (simp add: CleanStack_def Top_snoc attempt_Inr Pop_1_snoc)
next
  case False
  with assms show ?thesis
    by (simp add: CleanStack_def Top_snoc attempt_Inr Pop_1_snoc Pop_take)
qed

section \<open>Stack balance\<close>

text \<open>Claim C7. On the stack \<^verbatim>\<open>Assign\<close> expects (the values of the right-hand side,
  their counter, the table, one more slot, the key on top) \<^verbatim>\<open>Assign\<close> returns and the
  stack is 3 slots shorter; indeed every \<^verbatim>\<open>Assign\<close> that returns leaves the stack 3
  slots shorter. \<^verbatim>\<open>CleanStack\<close> with a counter of total \<open>n \<ge> 0\<close> on top of at least
  \<open>n\<close> slots returns and the stack is \<open>n + 1\<close> slots shorter.\<close>

theorem Assign_CleanStack_balance:
  "(stack s = bottom @ map StackValueType_Value vals @
        [StackValueType_Counter cur tot, StackValueType_Value (Some (VTable a)), x,
         StackValueType_Value (Some key)]
      \<and> int (length vals) = tot \<and> 0 \<le> cur \<and> a < length (tables s) \<and> key \<noteq> VNil \<longrightarrow>
      (\<exists>s'. Assign s = Inr s' \<and> int (length (stack s')) = int (length (stack s)) - 3))
   \<and> (\<forall>s'. Assign s = Inr s' \<longrightarrow> int (length (stack s')) = int (length (stack s)) - 3)
   \<and> (stack s = rest @ [StackValueType_Counter c n] \<and> 0 \<le> n \<and> n \<le> int (length rest) \<longrightarrow>
      (\<exists>s'. CleanStack s = Inr s' \<and> int (length (stack s')) = int (length (stack s)) - (n + 1)))"
proof (intro conjI impI allI)
  assume h: "stack s = bottom @ map StackValueType_Value vals @
        [StackValueType_Counter cur tot, StackValueType_Value (Some (VTable a)), x,
         StackValueType_Value (Some key)]
      \<and> int (length vals) = tot \<and> 0 \<le> cur \<and> a < length (tables s) \<and> key \<noteq> VNil"
  then have "Assign s =
     Inr (s\<lparr>stack := bottom @ map StackValueType_Value vals @
                 [StackValueType_Counter (if cur < tot then cur + 1 else cur) tot],
            tables := (tables s)[a := (tables s ! a)
                        (key \<mapsto> (if cur < tot then vals ! nat cur else Some VNil))]\<rparr>)"
    by (intro Assign_expected) simp_all
  with h show "\<exists>s'. Assign s = Inr s' \<and> int (length (stack s')) = int (length (stack s)) - 3"
    by simp
next
  fix s' assume "Assign s = Inr s'"
  from Assign_length [OF this]
  show "int (length (stack s')) = int (length (stack s)) - 3" by simp
next
  assume h: "stack s = rest @ [StackValueType_Counter c n] \<and> 0 \<le> n \<and> n \<le> int (length rest)"
  then have "CleanStack s = Inr (s\<lparr>stack := take (length rest - nat n) rest\<rparr>)"
    by (intro CleanStack_expected) simp_all
  with h show "\<exists>s'. CleanStack s = Inr s' \<and> int (length (stack s')) = int (length (stack s)) - (n + 1)"
    by auto
qed

text \<open>The theorem at an assignment from two values, and at the \<^verbatim>\<open>CleanStack\<close> that
  follows it.\<close>

theorem Assign_CleanStack_balance_witness:
  "(\<exists>s'. Assign assign_state = Inr s' \<and> length (stack s') = 3
      \<and> (\<exists>s''. CleanStack s' = Inr s'' \<and> length (stack s'') = 0))"
proof -
  have a: "\<exists>s'. Assign assign_state = Inr s' \<and> int (length (stack s')) = int (length (stack assign_state)) - 3"
    using Assign_CleanStack_balance [of assign_state "[]" "[Some (VNumber 10), Some (VNumber 20)]" 0 2 0
        "StackValueType_Counter 0 1" "VString ''a''"]
    by (simp add: assign_state_def global_frame_def VirtualMachine_new_def)
  then obtain s' where s': "Assign assign_state = Inr s'" "length (stack s') = 3"
    by (auto simp: assign_state_def)
  have "stack s' = [StackValueType_Value (Some (VNumber 10)),
        StackValueType_Value (Some (VNumber 20))] @ [StackValueType_Counter 1 2]"
    using s'(1) Assign_expected [of assign_state "[]" "[Some (VNumber 10), Some (VNumber 20)]" 0 2 0
        "StackValueType_Counter 0 1" "VString ''a''"]
    by (auto simp add: assign_state_def global_frame_def VirtualMachine_new_def)
  then have "\<exists>s''. CleanStack s' = Inr s'' \<and> int (length (stack s'')) = int (length (stack s')) - (2 + 1)"
    using Assign_CleanStack_balance [of s' _ _ _ _ _ _ _ "[StackValueType_Value (Some (VNumber 10)),
        StackValueType_Value (Some (VNumber 20))]" 1 2]
    by simp
  with s' show ?thesis by auto
qed

section \<open>Opcodes without a handler\<close>

text \<open>Claim C9. When the opcode of the instruction at \<open>ins_current\<close> is none of the
  seventeen of the switch, no handler runs: one round of the loop returns the state as
  it was (operand stack, scope tables, call stack, instruction base and count), with
  \<open>ins_current\<close> advanced by one; nothing is raised, and the loop goes on from there.\<close>

theorem unhandled_opcode_skipped:
  assumes "fetch s = Inr ins"
    and "op_code ins \<notin> {OpCode_Assign, OpCode_CleanStack, OpCode_GetLocalTable, OpCode_GetTable,
           OpCode_GetTableValue, OpCode_Push, OpCode_GenerateClosure, OpCode_Ret,
           OpCode_GenerateArgTable, OpCode_MergeCounter, OpCode_ResetCounter,
           OpCode_DuplicateCounter, OpCode_Call, OpCode_AddLocalTable, OpCode_DelLocalTable,
           OpCode_AddGlobalTable, OpCode_DelGlobalTable}"
  shows "dispatch ins s = Inr s
     \<and> step s = Inr (s\<lparr>ins_current := ins_current s + 1\<rparr>)
     \<and> (ins_current s < ins_count s \<longrightarrow>
          Run_loop (Suc fuel) s = Run_loop fuel (s\<lparr>ins_current := ins_current s + 1\<rparr>))"
proof -
  have d: "dispatch ins s = Inr s"
    using assms(2) by (cases "op_code ins") simp_all
  have st: "step s = Inr (s\<lparr>ins_current := ins_current s + 1\<rparr>)"
    using d assms(1) by (simp add: step_def attempt_Inr)
  show ?thesis using d st by simp
qed

text \<open>The theorem at a one-instruction program with an unknown opcode: the loop skips
  it and ends.\<close>

theorem unhandled_opcode_skipped_witness:
  "fetch other_opcode_state = Inr \<lparr>op_code = OpCode_Other 0, param_a = InstructionParamType_Counter 0\<rparr>
   \<and> step other_opcode_state = Inr (other_opcode_state\<lparr>ins_current := 1\<rparr>)
   \<and> Run_loop 2 other_opcode_state = Some (Inr (other_opcode_state\<lparr>ins_current := 1\<rparr>))"
proof -
  have f: "fetch other_opcode_state = Inr \<lparr>op_code = OpCode_Other 0, param_a = InstructionParamType_Counter 0\<rparr>"
    by (simp add: fetch_def other_opcode_state_def global_frame_def VirtualMachine_new_def)
  have two: "(2::nat) = Suc (Suc 0)" by simp
  show ?thesis
    using unhandled_opcode_skipped [OF f, of "Suc 0"] f
    by (simp add: two other_opcode_state_def global_frame_def VirtualMachine_new_def)
qed

section \<open>GetTable\<close>

text \<open>In a frame whose callee is a closure of the pool, a name that the scan of the
  \<^verbatim>\<open>callee_tables\<close> innermost scope tables does not find is looked up in the upvalue
  table of that closure: the handler raises nothing and pushes the pointer to that table
  (the null pointer when the closure has none) and a counter \<open>{0, 1}\<close>.\<close>

lemma GetTable_not_found:
  assumes "param_a ins = InstructionParamType_Name key"
    and "call_stack s \<noteq> []"
    and "GetTable_loop (tables s) key (rev (nest_tables s))
           (unat (callee_tables (last (call_stack s)))) = Inr None"
    and "callee (last (call_stack s)) = Some (VClosure c)"
    and "c < length (closures s)"
  shows "GetTable ins s =
     Inr (s\<lparr>stack := stack s @
            [StackValueType_Value (map_option VTable (upvalue_table (closures s ! c))),
             StackValueType_Counter 0 1]\<rparr>)"
  using assms
  by (simp add: GetTable_def vector_back_def attempt_Inr as_closure_def Push_def table_ptr_def)

text \<open>The lemma inside the call of a closure with an upvalue table, and of one without.\<close>

lemma GetTable_not_found_example:
  "GetTable get_n (closure_frame (Some 3)) =
     Inr (closure_frame (Some 3)\<lparr>stack := [StackValueType_Value (Some (VTable 3)),
                                            StackValueType_Counter 0 1]\<rparr>)
   \<and> GetTable get_n (closure_frame None) =
     Inr (closure_frame None\<lparr>stack := [StackValueType_Value None, StackValueType_Counter 0 1]\<rparr>)"
proof -
  have l: "GetTable_loop (tables (closure_frame u)) (Some (VString ''n''))
             (rev (nest_tables (closure_frame u)))
             (unat (callee_tables (last (call_stack (closure_frame u))))) = Inr None" for u
    by (simp add: closure_frame_def VirtualMachine_new_def new_CallStackInfo_def Table_HaveKey_def)
  show ?thesis
    using GetTable_not_found [of get_n "Some (VString ''n'')" "closure_frame (Some 3)" 0, OF _ _ l]
      GetTable_not_found [of get_n "Some (VString ''n'')" "closure_frame None" 0, OF _ _ l]
    by (simp add: get_n_def closure_frame_def VirtualMachine_new_def new_CallStackInfo_def)
qed

text \<open>Claim C1 at the global frame. The callee of the record that \<^verbatim>\<open>AddGlobalTable\<close>
  pushes is the null pointer. When the name is in none of the scanned tables (here the
  global table), \<^verbatim>\<open>GetTable\<close> evaluates \<^verbatim>\<open>callee->Type()\<close> on that null pointer, in
  its own assertion that the callee is a function: the handler does not return and
  nothing is pushed, where the claim promises a push and no error. For the same frame
  and name \<^verbatim>\<open>GetUpvalueKeyOwnerTable\<close> tests \<^verbatim>\<open>if (callee)\<close> first and returns the
  innermost scope table, with the name bound to Nil there.\<close>

theorem GetTable_null_callee_dereference:
  "callee (last (call_stack global_frame)) = None
   \<and> GetTable_loop (tables global_frame) (Some (VString ''n'')) (rev (nest_tables global_frame))
       (unat (callee_tables (last (call_stack global_frame)))) = Inr None
   \<and> GetTable get_n global_frame = Inl (NullDereference, global_frame)
   \<and> GetUpvalueKeyOwnerTable (Some (VString ''n'')) global_frame =
       Inr (0, global_frame\<lparr>tables := [[VString ''n'' \<mapsto> Some VNil]]\<rparr>)"
  by (simp add: get_n_def global_frame_def VirtualMachine_new_def new_CallStackInfo_def
        GetTable_def GetUpvalueKeyOwnerTable_def vector_back_def attempt_def Table_HaveKey_def
        Table_Assign_def)

section \<open>GetUpvalueKeyOwnerTable\<close>

text \<open>Claim C2 at a concrete state. The current frame has one scope table, table 2,
  which has no \<open>n\<close>; table 1 belongs to the caller and binds \<open>n\<close>. The first search
  step of \<^verbatim>\<open>GetUpvalueKeyOwnerTable\<close> never decrements \<^verbatim>\<open>callee_tables\<close>, so it goes
  on into the caller's tables and returns table 1, where \<^verbatim>\<open>GetTable\<close>, which
  decrements, stops after table 2 and takes the upvalue table 3.\<close>

theorem GetUpvalueKeyOwnerTable_scans_caller_tables:
  "nest_tables (closure_frame (Some 3)) = [Some 0, Some 1, Some 2]
   \<and> callee_tables (last (call_stack (closure_frame (Some 3)))) = 1
   \<and> Table_HaveKey (tables (closure_frame (Some 3))) (Some 2) (Some (VString ''n'')) = Inr False
   \<and> GetUpvalueKeyOwnerTable (Some (VString ''n'')) (closure_frame (Some 3))
       = Inr (1, closure_frame (Some 3))
   \<and> GetTable get_n (closure_frame (Some 3)) =
       Inr (closure_frame (Some 3)\<lparr>stack := [StackValueType_Value (Some (VTable 3)),
                                              StackValueType_Counter 0 1]\<rparr>)"
  by (simp add: get_n_def closure_frame_def VirtualMachine_new_def new_CallStackInfo_def
        GetUpvalueKeyOwnerTable_def GetTable_def vector_back_def attempt_def Table_HaveKey_def
        as_closure_def Push_def table_ptr_def)

section \<open>Scope tables and call records\<close>

lemma frames_simps [simp]:
  "frames (s\<lparr>stack := a\<rparr>) = frames s"
  "frames (s\<lparr>tables := b\<rparr>) = frames s"
  "frames (s\<lparr>closures := c\<rparr>) = frames s"
  "frames (s\<lparr>ins_base := d\<rparr>) = frames s"
  "frames (s\<lparr>ins_count := e\<rparr>) = frames s"
  "frames (s\<lparr>ins_current := f\<rparr>) = frames s"
  by (simp_all add: frames_def)

lemma attempt_InrE:
  assumes "attempt x s f = Inr r"
  obtains a where "x = Inr a" and "f a = Inr r"
  using assms by (cases x) (simp_all add: attempt_def)

lemma Assign_frames: "Assign s = Inr s' \<Longrightarrow> frames s' = frames s"
  by (auto elim!: attempt_InrE simp: Assign_def Let_def
      split: sum.splits option.splits StackValue.splits if_splits prod.splits)

lemma CleanStack_frames: "CleanStack s = Inr s' \<Longrightarrow> frames s' = frames s"
  by (auto elim!: attempt_InrE simp: CleanStack_def Let_def
      split: sum.splits option.splits StackValue.splits if_splits prod.splits)

lemma GetLocalTable_frames: "GetLocalTable s = Inr s' \<Longrightarrow> frames s' = frames s"
  by (auto elim!: attempt_InrE simp: GetLocalTable_def Let_def split: sum.splits)


lemma GetTable_frames: "GetTable ins s = Inr s' \<Longrightarrow> frames s' = frames s"
  by (auto elim!: attempt_InrE simp: GetTable_def Let_def
      split: sum.splits option.splits InstructionParam.splits if_splits)

lemma GetTableValue_frames: "GetTableValue ins s = Inr s' \<Longrightarrow> frames s' = frames s"
  by (auto elim!: attempt_InrE simp: GetTableValue_def Let_def
      split: sum.splits option.splits InstructionParam.splits StackValue.splits if_splits)

lemma DoPush_frames: "DoPush ins s = Inr s' \<Longrightarrow> frames s' = frames s"
  by (auto elim!: attempt_InrE simp: DoPush_def split: InstructionParam.splits)

lemma ResetCounter_frames: "ResetCounter s = Inr s' \<Longrightarrow> frames s' = frames s"
  by (auto elim!: attempt_InrE simp: ResetCounter_def Let_def
      split: sum.splits option.splits if_splits prod.splits)

lemma GetUpvalueKeyOwnerTable_frames:
  "GetUpvalueKeyOwnerTable key s = Inr (t, s') \<Longrightarrow> frames s' = frames s"
  by (auto elim!: attempt_InrE simp: GetUpvalueKeyOwnerTable_def Let_def
      split: sum.splits option.splits if_splits)


lemma GenerateClosure_loop_frames:
  "GenerateClosure_loop u names s = Inr s' \<Longrightarrow> frames s' = frames s"
proof (induction names arbitrary: s)
  case Nil
  then show ?case by simp
next
  case (Cons name names)
  from Cons.prems obtain t s1 v ts where
    o: "GetUpvalueKeyOwnerTable name s = Inr (t, s1)"
    and r: "GenerateClosure_loop u names (s1\<lparr>tables := ts\<rparr>) = Inr s'"
    by (auto split: sum.splits prod.splits)
  from Cons.IH [OF r] GetUpvalueKeyOwnerTable_frames [OF o] show ?case by simp
qed

lemma GenerateClosure_frames: "GenerateClosure ins s = Inr s' \<Longrightarrow> frames s' = frames s"
  by (auto elim!: attempt_InrE simp: GenerateClosure_def Let_def DataPool_GetClosure_def
      dest!: GenerateClosure_loop_frames
      split: sum.splits option.splits InstructionParam.splits if_splits prod.splits)

lemma GenerateArgTable_loop_frames:
  "GenerateArgTable_loop arg index arg_index cur tot s = Inr s' \<Longrightarrow> frames s' = frames s"
proof (induction arg index arg_index cur tot s rule: GenerateArgTable_loop.induct)
  case (1 arg index arg_index cur tot s)
  show ?case
  proof (cases "cur < tot")
    case True
    with "1.prems" obtain sv v ts where
      a: "GetStackValue (stack s) index = Inr sv" "slot_value sv = Inr v"
         "Table_Assign (tables s) (Some arg) (Some (VNumber arg_index)) v = Inr ts"
      and r: "GenerateArgTable_loop arg (index + 1) (arg_index + 1) (cur + 1) tot (s\<lparr>tables := ts\<rparr>) = Inr s'"
      by (subst (asm) GenerateArgTable_loop.simps) (auto split: sum.splits)
    from "1.IH" [OF True a r] show ?thesis by simp
  next
    case False
    with "1.prems" show ?thesis by (subst (asm) GenerateArgTable_loop.simps) simp
  qed
qed

lemma GenerateArgTable_frames: "GenerateArgTable s = Inr s' \<Longrightarrow> frames s' = frames s"
  by (auto elim!: attempt_InrE simp: GenerateArgTable_def Let_def DataPool_GetTable_def
      dest!: GenerateArgTable_loop_frames
      split: sum.splits option.splits if_splits prod.splits)

lemma MergeCounter_loop_frames:
  "MergeCounter_loop i counter1 index s = Inr s' \<Longrightarrow> frames s' = frames s"
proof (induction i counter1 index s rule: MergeCounter_loop.induct)
  case (1 i counter1 index s)
  show ?case
  proof (cases "i < counter1")
    case True
    with "1.prems" obtain dst src where
      a: "stack_index (stack s) index = Inr dst" "GetStackValue (stack s) (index + 1) = Inr src"
      and r: "MergeCounter_loop (i + 1) counter1 (index + 1) (s\<lparr>stack := (stack s)[dst := src]\<rparr>) = Inr s'"
      by (subst (asm) MergeCounter_loop.simps) (auto split: sum.splits)
    from "1.IH" [OF True a r] show ?thesis by simp
  next
    case False
    with "1.prems" show ?thesis by (subst (asm) MergeCounter_loop.simps) simp
  qed
qed

lemma MergeCounter_frames: "MergeCounter s = Inr s' \<Longrightarrow> frames s' = frames s"
  by (auto elim!: attempt_InrE simp: MergeCounter_def Let_def
      dest!: MergeCounter_loop_frames
      split: sum.splits option.splits if_splits prod.splits)

lemma DuplicateCounter_loop_frames:
  "DuplicateCounter_loop i tot index s = Inr s' \<Longrightarrow> frames s' = frames s"
proof (induction i tot index s rule: DuplicateCounter_loop.induct)
  case (1 i tot index s)
  show ?case
  proof (cases "i < tot")
    case True
    with "1.prems" obtain src where
      a: "GetStackValue (stack s) index = Inr src"
      and r: "DuplicateCounter_loop (i + 1) tot (index + 1) (s\<lparr>stack := Push src (stack s)\<rparr>) = Inr s'"
      by (subst (asm) DuplicateCounter_loop.simps) (auto split: sum.splits)
    from "1.IH" [OF True a r] show ?thesis by simp
  next
    case False
    with "1.prems" show ?thesis by (subst (asm) DuplicateCounter_loop.simps) simp
  qed
qed

lemma DuplicateCounter_frames: "DuplicateCounter s = Inr s' \<Longrightarrow> frames s' = frames s"
  by (auto elim!: attempt_InrE simp: DuplicateCounter_def Let_def
      dest!: DuplicateCounter_loop_frames
      split: sum.splits option.splits if_splits prod.splits)

lemma Call_frames:
  "Call s = Inr s' \<Longrightarrow>
     nest_tables s' = nest_tables s \<and>
     (\<exists>r. call_stack s' = call_stack s @ [r] \<and> callee_tables r = 0)"
  by (auto elim!: attempt_InrE simp: Call_def Let_def new_CallStackInfo_def
      split: sum.splits option.splits StackValue.splits val.splits if_splits prod.splits)

lemma Return_frames:
  "Return s = Inr s' \<Longrightarrow>
     call_stack s \<noteq> [] \<and> call_stack s' = butlast (call_stack s) \<and>
     nest_tables s' =
       resize (unat (word_of_nat (length (nest_tables s)) - callee_tables (last (call_stack s))))
         (nest_tables s)"
  by (auto elim!: attempt_InrE simp: Return_def vector_back_def split: if_splits)

lemma AddLocalTable_frames:
  "AddLocalTable s = Inr s' \<Longrightarrow>
     call_stack s \<noteq> [] \<and>
     call_stack s' = butlast (call_stack s) @
        [(last (call_stack s))\<lparr>callee_tables := callee_tables (last (call_stack s)) + 1\<rparr>] \<and>
     length (nest_tables s') = Suc (length (nest_tables s))"
  by (auto elim!: attempt_InrE simp: AddLocalTable_def DataPool_GetTable_def Let_def vector_back_def
      split: if_splits)

lemma DelLocalTable_frames:
  "DelLocalTable s = Inr s' \<Longrightarrow>
     call_stack s \<noteq> [] \<and> nest_tables s \<noteq> [] \<and>
     call_stack s' = butlast (call_stack s) @
        [(last (call_stack s))\<lparr>callee_tables := callee_tables (last (call_stack s)) - 1\<rparr>] \<and>
     length (nest_tables s') = length (nest_tables s) - 1"
  by (auto elim!: attempt_InrE simp: DelLocalTable_def Let_def vector_back_def split: if_splits)

lemma AddGlobalTable_frames:
  "AddGlobalTable s = Inr s' \<Longrightarrow>
     (\<exists>r. call_stack s' = call_stack s @ [r] \<and> callee_tables r = 1) \<and>
     length (nest_tables s') = Suc (length (nest_tables s))"
  by (auto simp: AddGlobalTable_def new_CallStackInfo_def)

lemma DelGlobalTable_frames:
  "DelGlobalTable s = Inr s' \<Longrightarrow>
     call_stack s \<noteq> [] \<and> nest_tables s \<noteq> [] \<and>
     call_stack s' = butlast (call_stack s) \<and>
     length (nest_tables s') = length (nest_tables s) - 1"
  by (auto simp: DelGlobalTable_def Let_def split: if_splits)

lemma stepE:
  assumes "step s = Inr s'"
  obtains ins s0 where "fetch s = Inr ins" and "dispatch ins s = Inr s0"
    and "s' = s0\<lparr>ins_current := ins_current s0 + 1\<rparr>"
  using assms by (auto simp: step_def attempt_def split: sum.splits)

lemma drop_snoc_last: "d < length cs \<Longrightarrow> drop d cs = drop d (butlast cs) @ [last cs]"
  by (cases cs rule: rev_cases) auto

lemma open_tables_snoc:
  "d \<le> length cs \<Longrightarrow>
   sum_list (map callee_tables (drop d (cs @ [r]))) =
   sum_list (map callee_tables (drop d cs)) + callee_tables r"
  by simp

lemma open_tables_last:
  "d < length cs \<Longrightarrow>
   sum_list (map callee_tables (drop d cs)) =
   sum_list (map callee_tables (drop d (butlast cs))) + callee_tables (last cs)"
  by (subst drop_snoc_last) simp_all

lemma take_butlast_snoc: "d < length cs \<Longrightarrow> take d (butlast cs @ [x]) = take d cs"
  by (cases cs rule: rev_cases) auto

lemma take_butlast_less: "d < length cs \<Longrightarrow> take d (butlast cs) = take d cs"
  by (cases cs rule: rev_cases) auto

lemma length_resize: "length (resize n xs) = n"
  by (simp add: resize_def)

lemma step_frame_cases:
  assumes "step s = Inr s'"
  shows "(local_effect s = 0 \<and> nest_tables s' = nest_tables s \<and> call_stack s' = call_stack s)
    \<or> (local_effect s = 0 \<and> nest_tables s' = nest_tables s
        \<and> (\<exists>r. call_stack s' = call_stack s @ [r] \<and> callee_tables r = 0))
    \<or> (local_effect s = 0 \<and> length (nest_tables s') = Suc (length (nest_tables s))
        \<and> (\<exists>r. call_stack s' = call_stack s @ [r] \<and> callee_tables r = 1))
    \<or> (call_stack s \<noteq> [] \<and> length (nest_tables s') = Suc (length (nest_tables s))
        \<and> call_stack s' = butlast (call_stack s) @
             [(last (call_stack s))\<lparr>callee_tables := callee_tables (last (call_stack s)) + 1\<rparr>]
        \<and> local_effect s = 1)
    \<or> (call_stack s \<noteq> [] \<and> nest_tables s \<noteq> []
        \<and> length (nest_tables s') = length (nest_tables s) - 1
        \<and> call_stack s' = butlast (call_stack s) @
             [(last (call_stack s))\<lparr>callee_tables := callee_tables (last (call_stack s)) - 1\<rparr>]
        \<and> local_effect s = - 1)
    \<or> (local_effect s = 0 \<and> call_stack s \<noteq> [] \<and> call_stack s' = butlast (call_stack s)
        \<and> length (nest_tables s') =
             unat (word_of_nat (length (nest_tables s)) - callee_tables (last (call_stack s))))
    \<or> (local_effect s = 0 \<and> call_stack s \<noteq> [] \<and> nest_tables s \<noteq> []
        \<and> call_stack s' = butlast (call_stack s)
        \<and> length (nest_tables s') = length (nest_tables s) - 1
        \<and> (\<exists>ins. fetch s = Inr ins \<and> op_code ins = OpCode_DelGlobalTable))"
proof -
  from assms obtain ins s0 where f: "fetch s = Inr ins" and d: "dispatch ins s = Inr s0"
    and s': "s' = s0\<lparr>ins_current := ins_current s0 + 1\<rparr>"
    by (rule stepE)
  have n: "nest_tables s' = nest_tables s0" and c: "call_stack s' = call_stack s0"
    using s' by simp_all
  note le = local_effect_def f
  show ?thesis
  proof (cases "op_code ins")
    case OpCode_Assign
    with d have "frames s0 = frames s" by (simp add: Assign_frames)
    then show ?thesis using n c OpCode_Assign by (simp add: frames_def le)
  next
    case OpCode_CleanStack
    with d have "frames s0 = frames s" by (simp add: CleanStack_frames)
    then show ?thesis using n c OpCode_CleanStack by (simp add: frames_def le)
  next
    case OpCode_GetLocalTable
    with d have "frames s0 = frames s" by (simp add: GetLocalTable_frames)
    then show ?thesis using n c OpCode_GetLocalTable by (simp add: frames_def le)
  next
    case OpCode_GetTable
    with d have "frames s0 = frames s" by (simp add: GetTable_frames)
    then show ?thesis using n c OpCode_GetTable by (simp add: frames_def le)
  next
    case OpCode_GetTableValue
    with d have "frames s0 = frames s" by (simp add: GetTableValue_frames)
    then show ?thesis using n c OpCode_GetTableValue by (simp add: frames_def le)
  next
    case OpCode_Push
    with d have "frames s0 = frames s" by (simp add: DoPush_frames)
    then show ?thesis using n c OpCode_Push by (simp add: frames_def le)
  next
    case OpCode_GenerateClosure
    with d have "frames s0 = frames s" by (simp add: GenerateClosure_frames)
    then show ?thesis using n c OpCode_GenerateClosure by (simp add: frames_def le)
  next
    case OpCode_Ret
    with d have "Return s = Inr s0" by simp
    from Return_frames [OF this] show ?thesis using n c OpCode_Ret by (simp add: length_resize le)
  next
    case OpCode_GenerateArgTable
    with d have "frames s0 = frames s" by (simp add: GenerateArgTable_frames)
    then show ?thesis using n c OpCode_GenerateArgTable by (simp add: frames_def le)
  next
    case OpCode_MergeCounter
    with d have "frames s0 = frames s" by (simp add: MergeCounter_frames)
    then show ?thesis using n c OpCode_MergeCounter by (simp add: frames_def le)
  next
    case OpCode_ResetCounter
    with d have "frames s0 = frames s" by (simp add: ResetCounter_frames)
    then show ?thesis using n c OpCode_ResetCounter by (simp add: frames_def le)
  next
    case OpCode_DuplicateCounter
    with d have "frames s0 = frames s" by (simp add: DuplicateCounter_frames)
    then show ?thesis using n c OpCode_DuplicateCounter by (simp add: frames_def le)
  next
    case OpCode_Call
    with d have "Call s = Inr s0" by simp
    from Call_frames [OF this] show ?thesis using n c OpCode_Call by (simp add: le)
  next
    case OpCode_AddLocalTable
    with d have "AddLocalTable s = Inr s0" by simp
    from AddLocalTable_frames [OF this] show ?thesis using n c OpCode_AddLocalTable by (simp add: le)
  next
    case OpCode_DelLocalTable
    with d have "DelLocalTable s = Inr s0" by simp
    from DelLocalTable_frames [OF this] show ?thesis using n c OpCode_DelLocalTable by (simp add: le)
  next
    case OpCode_AddGlobalTable
    with d have "AddGlobalTable s = Inr s0" by simp
    from AddGlobalTable_frames [OF this] show ?thesis using n c OpCode_AddGlobalTable by (simp add: le)
  next
    case OpCode_DelGlobalTable
    with d have "DelGlobalTable s = Inr s0" by simp
    from DelGlobalTable_frames [OF this] show ?thesis using n c OpCode_DelGlobalTable by (simp add: le)
  next
    case (OpCode_Other x)
    with d have "s0 = s" by simp
    then show ?thesis using n c OpCode_Other by (simp add: le)
  qed
qed

lemma step_potential:
  assumes st: "step s = Inr s'" and d: "d < length (call_stack s)"
    and g: "\<And>ins. fetch s = Inr ins \<Longrightarrow> op_code ins = OpCode_DelGlobalTable \<Longrightarrow>
              callee_tables (last (call_stack s)) = 1"
  shows "take d (call_stack s') = take d (call_stack s)"
    and "d \<le> length (call_stack s')"
    and "word_of_nat (length (nest_tables s')) - open_tables d s' =
         word_of_nat (length (nest_tables s)) - open_tables d s"
proof -
  note ol = open_tables_last [OF d]
  have "take d (call_stack s') = take d (call_stack s) \<and> d \<le> length (call_stack s') \<and>
        word_of_nat (length (nest_tables s')) - open_tables d s' =
         word_of_nat (length (nest_tables s)) - open_tables d s"
    using step_frame_cases [OF st]
  proof (elim disjE conjE exE)
    assume "nest_tables s' = nest_tables s" "call_stack s' = call_stack s"
    then show ?thesis using d by (simp add: open_tables_def)
  next
    fix r assume "nest_tables s' = nest_tables s" "call_stack s' = call_stack s @ [r]"
      "callee_tables r = 0"
    then show ?thesis using d by (simp add: open_tables_def)
  next
    fix r assume "length (nest_tables s') = Suc (length (nest_tables s))"
      "call_stack s' = call_stack s @ [r]" "callee_tables r = 1"
    then show ?thesis using d by (simp add: open_tables_def)
  next
    assume "length (nest_tables s') = Suc (length (nest_tables s))"
      "call_stack s' = butlast (call_stack s) @
             [(last (call_stack s))\<lparr>callee_tables := callee_tables (last (call_stack s)) + 1\<rparr>]"
    then show ?thesis using d ol by (auto simp add: open_tables_def take_butlast_snoc take_butlast_less)
  next
    assume "nest_tables s \<noteq> []" "length (nest_tables s') = length (nest_tables s) - 1"
      "call_stack s' = butlast (call_stack s) @
             [(last (call_stack s))\<lparr>callee_tables := callee_tables (last (call_stack s)) - 1\<rparr>]"
    moreover from this(1) have "word_of_nat (length (nest_tables s) - 1) =
        (word_of_nat (length (nest_tables s)) - 1 :: 64 word)"
      by (cases "nest_tables s") simp_all
    ultimately show ?thesis using d ol by (auto simp add: open_tables_def take_butlast_snoc take_butlast_less)
  next
    assume "call_stack s' = butlast (call_stack s)"
      "length (nest_tables s') =
             unat (word_of_nat (length (nest_tables s)) - callee_tables (last (call_stack s)))"
    then show ?thesis using d ol by (auto simp add: open_tables_def take_butlast_less)
  next
    fix ins assume "nest_tables s \<noteq> []" "call_stack s' = butlast (call_stack s)"
      "length (nest_tables s') = length (nest_tables s) - 1"
      "fetch s = Inr ins" "op_code ins = OpCode_DelGlobalTable"
    moreover from this(1) have "word_of_nat (length (nest_tables s) - 1) =
        (word_of_nat (length (nest_tables s)) - 1 :: 64 word)"
      by (cases "nest_tables s") simp_all
    moreover from g calculation have "callee_tables (last (call_stack s)) = 1" by blast
    ultimately show ?thesis using d ol by (auto simp add: open_tables_def take_butlast_less)
  qed
  then show "take d (call_stack s') = take d (call_stack s)"
    and "d \<le> length (call_stack s')"
    and "word_of_nat (length (nest_tables s')) - open_tables d s' =
         word_of_nat (length (nest_tables s)) - open_tables d s"
    by simp_all
qed

lemma step_own:
  assumes st: "step s = Inr s'" and d: "d < length (call_stack s)"
    and d': "d < length (call_stack s')"
  shows "callee_tables (call_stack s' ! d) =
         callee_tables (call_stack s ! d) + word_of_int (own_effect d s)"
proof -
  have top: "length (call_stack s) = Suc d \<Longrightarrow> call_stack s ! d = last (call_stack s)"
    by (cases "call_stack s" rule: rev_cases) auto
  have low: "length (call_stack s) \<noteq> Suc d \<Longrightarrow> (butlast (call_stack s) @ [x]) ! d = call_stack s ! d
       \<and> butlast (call_stack s) ! d = call_stack s ! d" for x
    using d by (cases "call_stack s" rule: rev_cases) (auto simp: nth_append)
  show ?thesis
    using step_frame_cases [OF st]
  proof (elim disjE conjE exE)
    assume "local_effect s = 0" "call_stack s' = call_stack s"
    then show ?thesis by (simp add: own_effect_def)
  next
    fix r assume "local_effect s = 0" "call_stack s' = call_stack s @ [r]"
    then show ?thesis using d by (simp add: own_effect_def nth_append)
  next
    fix r assume "local_effect s = 0" "call_stack s' = call_stack s @ [r]" "callee_tables r = 1"
    then show ?thesis using d by (simp add: own_effect_def nth_append)
  next
    assume "local_effect s = 1"
      "call_stack s' = butlast (call_stack s) @
             [(last (call_stack s))\<lparr>callee_tables := callee_tables (last (call_stack s)) + 1\<rparr>]"
    then show ?thesis using d top low
      by (cases "length (call_stack s) = Suc d") (simp_all add: own_effect_def nth_append)
  next
    assume "local_effect s = - 1"
      "call_stack s' = butlast (call_stack s) @
             [(last (call_stack s))\<lparr>callee_tables := callee_tables (last (call_stack s)) - 1\<rparr>]"
    then show ?thesis using d top low
      by (cases "length (call_stack s) = Suc d") (simp_all add: own_effect_def nth_append)
  next
    assume "local_effect s = 0" "call_stack s' = butlast (call_stack s)"
      "length (nest_tables s') =
             unat (word_of_nat (length (nest_tables s)) - callee_tables (last (call_stack s)))"
    then show ?thesis using d d' low
      by (cases "length (call_stack s) = Suc d") (simp_all add: own_effect_def)
  next
    fix ins assume "local_effect s = 0" "call_stack s' = butlast (call_stack s)"
      "fetch s = Inr ins"
    then show ?thesis using d d' low
      by (cases "length (call_stack s) = Suc d") (simp_all add: own_effect_def)
  qed
qed

lemma exec_SucE:
  assumes "exec (Suc k) s = Some s2"
  obtains t where "step s = Inr t" and "exec k t = Some s2"
  using assms by (auto split: if_splits sum.splits)

lemma exec_Suc_step: "exec (Suc k) s = Some s2 \<Longrightarrow> step s = Inr t \<Longrightarrow> exec k t = Some s2"
  by (auto split: if_splits)

lemma exec_step_Suc:
  "exec (Suc k) s = Some s2 \<Longrightarrow> step s = Inr t \<Longrightarrow> exec j t = Some t' \<Longrightarrow>
   exec (Suc j) s = Some t'"
  by (auto split: if_splits)

lemma exec_activation:
  assumes "exec k s1 = Some s2"
    and "\<And>j t. j \<le> k \<Longrightarrow> exec j s1 = Some t \<Longrightarrow> d < length (call_stack t)"
    and "\<And>j t ins. j < k \<Longrightarrow> exec j s1 = Some t \<Longrightarrow> fetch t = Inr ins \<Longrightarrow>
            op_code ins = OpCode_DelGlobalTable \<Longrightarrow> callee_tables (last (call_stack t)) = 1"
  shows "take d (call_stack s2) = take d (call_stack s1) \<and>
         word_of_nat (length (nest_tables s2)) - open_tables d s2 =
           word_of_nat (length (nest_tables s1)) - open_tables d s1 \<and>
         callee_tables (call_stack s2 ! d) =
           callee_tables (call_stack s1 ! d) + word_of_int (activation_tables d k s1)"
  using assms
proof (induction k arbitrary: s1)
  case 0
  then show ?case by simp
next
  case (Suc k)
  from Suc.prems(1) obtain t where st: "step s1 = Inr t" and ex: "exec k t = Some s2"
    by (rule exec_SucE)
  have d1: "d < length (call_stack s1)"
    using Suc.prems(2) [of 0 s1] by simp
  have dt: "d < length (call_stack t)"
    using Suc.prems(2) [of "Suc 0" t] st Suc.prems(1) by (auto split: if_splits)
  have g1: "\<And>ins. fetch s1 = Inr ins \<Longrightarrow> op_code ins = OpCode_DelGlobalTable \<Longrightarrow>
              callee_tables (last (call_stack s1)) = 1"
    using Suc.prems(3) [of 0 s1] by simp
  have alive: "\<And>j t'. j \<le> k \<Longrightarrow> exec j t = Some t' \<Longrightarrow> d < length (call_stack t')"
    using Suc.prems(2) exec_step_Suc [OF Suc.prems(1) st] by (meson Suc_le_mono)
  have globals: "\<And>j t' ins. j < k \<Longrightarrow> exec j t = Some t' \<Longrightarrow> fetch t' = Inr ins \<Longrightarrow>
            op_code ins = OpCode_DelGlobalTable \<Longrightarrow> callee_tables (last (call_stack t')) = 1"
    using Suc.prems(3) exec_step_Suc [OF Suc.prems(1) st] by (meson Suc_less_eq)
  have ih: "take d (call_stack s2) = take d (call_stack t) \<and>
         word_of_nat (length (nest_tables s2)) - open_tables d s2 =
           word_of_nat (length (nest_tables t)) - open_tables d t \<and>
         callee_tables (call_stack s2 ! d) =
           callee_tables (call_stack t ! d) + word_of_int (activation_tables d k t)"
  proof (rule Suc.IH [OF ex])
    fix j t' assume "j \<le> k" "exec j t = Some t'"
    then show "d < length (call_stack t')" by (rule alive)
  next
    fix j t' ins
    assume "j < k" "exec j t = Some t'" "fetch t' = Inr ins" "op_code ins = OpCode_DelGlobalTable"
    then show "callee_tables (last (call_stack t')) = 1" by (rule globals)
  qed
  have p1: "take d (call_stack t) = take d (call_stack s1)"
    by (rule step_potential(1) [OF st d1]) (rule g1)
  have p3: "word_of_nat (length (nest_tables t)) - open_tables d t =
         word_of_nat (length (nest_tables s1)) - open_tables d s1"
    by (rule step_potential(3) [OF st d1]) (rule g1)
  note o = step_own [OF st d1 dt]
  have a: "activation_tables d (Suc k) s1 = own_effect d s1 + activation_tables d k t"
    using st by simp
  show ?case unfolding a using ih p1 p3 o by simp
qed

lemmas example_defs = call_state_def global_frame_def VirtualMachine_new_def
  example_function_def example_native_def new_CallStackInfo_def

lemma example_steps:
  "step (call_state (VClosure 0)) = Inr call_state_1"
  "step call_state_1 = Inr call_state_2"
  "step call_state_2 = Inr call_state_3"
  by (simp_all add: step_def fetch_def attempt_def Call_def AddLocalTable_def Return_def
      call_state_1_def call_state_2_def call_state_3_def example_defs
      top_counter_def Top_def GetStackValue_def stack_index_def slot_value_def as_closure_def
      Closure_GetInstructions_def DataPool_GetTable_def vector_back_def resize_def Let_def)

text \<open>Claim C6. Let a \<^verbatim>\<open>Call\<close> execute in state \<open>s\<close>, let \<open>k\<close> further rounds of the
  loop run without an error while the call record it pushed stays on the call stack, and
  let the next instruction be a \<^verbatim>\<open>Ret\<close> that executes with that record on top (the
  matching \<^verbatim>\<open>Ret\<close>). As the data model requires, a \<^verbatim>\<open>DelGlobalTable\<close> executed in
  between removes a record with \<open>callee_tables = 1\<close>, as \<^verbatim>\<open>AddGlobalTable\<close> pushes it.
  Then after the \<^verbatim>\<open>Ret\<close> the call stack is the one before the \<^verbatim>\<open>Call\<close> and the scope
  stack has the depth it had before the \<^verbatim>\<open>Call\<close>. The \<open>callee_tables\<close> of the record
  is the number of scope tables the activation pushed with \<^verbatim>\<open>AddLocalTable\<close> minus those
  it removed with \<^verbatim>\<open>DelLocalTable\<close>, and \<^verbatim>\<open>Ret\<close> resizes the scope stack by exactly
  that number: it removes that many tables when there are that many.\<close>

theorem Call_Ret_symmetry:
  assumes call: "fetch s = Inr ci" "op_code ci = OpCode_Call" "step s = Inr s1"
    and body: "exec k s1 = Some s2"
    and alive: "\<And>j t. j \<le> k \<Longrightarrow> exec j s1 = Some t \<Longrightarrow>
                  length (call_stack s) < length (call_stack t)"
    and globals: "\<And>j t ins. j < k \<Longrightarrow> exec j s1 = Some t \<Longrightarrow> fetch t = Inr ins \<Longrightarrow>
                  op_code ins = OpCode_DelGlobalTable \<Longrightarrow> callee_tables (last (call_stack t)) = 1"
    and ret: "fetch s2 = Inr ri" "op_code ri = OpCode_Ret"
             "length (call_stack s2) = Suc (length (call_stack s))" "step s2 = Inr s3"
    and size: "length (nest_tables s) < 2 ^ 64"
  shows "call_stack s3 = call_stack s
     \<and> length (nest_tables s3) = length (nest_tables s)
     \<and> callee_tables (last (call_stack s2)) =
         word_of_int (activation_tables (length (call_stack s)) k s1)
     \<and> nest_tables s3 =
         resize (unat (word_of_nat (length (nest_tables s2)) - callee_tables (last (call_stack s2))))
           (nest_tables s2)
     \<and> (unat (callee_tables (last (call_stack s2))) \<le> length (nest_tables s2) \<longrightarrow>
         length (nest_tables s2) < 2 ^ 64 \<longrightarrow>
         nest_tables s3 =
           take (length (nest_tables s2) - unat (callee_tables (last (call_stack s2))))
             (nest_tables s2))"
proof -
  let ?d = "length (call_stack s)"
  from call(3) obtain s0 where "dispatch ci s = Inr s0"
    and s1: "s1 = s0\<lparr>ins_current := ins_current s0 + 1\<rparr>"
    using call(1) by (auto elim!: stepE)
  with call(2) have "Call s = Inr s0" by simp
  from Call_frames [OF this] s1 obtain r where
    n1: "nest_tables s1 = nest_tables s" and c1: "call_stack s1 = call_stack s @ [r]"
    and r: "callee_tables r = 0"
    by auto
  have o1: "open_tables ?d s1 = 0" and r1: "callee_tables (call_stack s1 ! ?d) = 0"
    using c1 r by (simp_all add: open_tables_def)
  have act: "take ?d (call_stack s2) = take ?d (call_stack s1) \<and>
         word_of_nat (length (nest_tables s2)) - open_tables ?d s2 =
           word_of_nat (length (nest_tables s1)) - open_tables ?d s1 \<and>
         callee_tables (call_stack s2 ! ?d) =
           callee_tables (call_stack s1 ! ?d) + word_of_int (activation_tables ?d k s1)"
  proof (rule exec_activation [OF body])
    fix j t assume "j \<le> k" "exec j s1 = Some t"
    then show "?d < length (call_stack t)" by (rule alive)
  next
    fix j t ins
    assume "j < k" "exec j s1 = Some t" "fetch t = Inr ins" "op_code ins = OpCode_DelGlobalTable"
    then show "callee_tables (last (call_stack t)) = 1" by (rule globals)
  qed
  have c2: "call_stack s2 = call_stack s @ [last (call_stack s2)]"
  proof -
    have "call_stack s2 \<noteq> []" using ret(3) by auto
    then have "call_stack s2 = butlast (call_stack s2) @ [last (call_stack s2)]" by simp
    moreover have "butlast (call_stack s2) = take ?d (call_stack s2)"
      using ret(3) by (simp add: butlast_conv_take)
    moreover have "take ?d (call_stack s2) = call_stack s" using act c1 by simp
    ultimately show ?thesis by simp
  qed
  have l2: "call_stack s2 ! ?d = last (call_stack s2)"
    by (subst c2) simp
  have o2: "open_tables ?d s2 = callee_tables (last (call_stack s2))"
    unfolding open_tables_def by (subst c2) simp
  have bal: "word_of_nat (length (nest_tables s2)) - callee_tables (last (call_stack s2)) =
             (word_of_nat (length (nest_tables s)) :: 64 word)"
    using act o1 o2 n1 by simp
  have own: "callee_tables (last (call_stack s2)) = word_of_int (activation_tables ?d k s1)"
    using act r1 l2 by simp
  from ret(4) obtain s0' where "dispatch ri s2 = Inr s0'"
    and s3: "s3 = s0'\<lparr>ins_current := ins_current s0' + 1\<rparr>"
    using ret(1) by (auto elim!: stepE)
  with ret(2) have "Return s2 = Inr s0'" by simp
  from Return_frames [OF this] s3 have
    c3: "call_stack s3 = butlast (call_stack s2)"
    and n3: "nest_tables s3 =
       resize (unat (word_of_nat (length (nest_tables s2)) - callee_tables (last (call_stack s2))))
         (nest_tables s2)"
    by auto
  have 1: "call_stack s3 = call_stack s"
    unfolding c3 by (subst c2) simp
  have u: "unat (word_of_nat (length (nest_tables s)) :: 64 word) = length (nest_tables s)"
    using size by (simp add: unat_of_nat)
  have 2: "length (nest_tables s3) = length (nest_tables s)"
    unfolding n3 bal u by (rule length_resize)
  have 5: "nest_tables s3 =
           take (length (nest_tables s2) - unat (callee_tables (last (call_stack s2))))
             (nest_tables s2)"
    if le: "unat (callee_tables (last (call_stack s2))) \<le> length (nest_tables s2)"
      and lt: "length (nest_tables s2) < 2 ^ 64"
  proof -
    let ?c = "callee_tables (last (call_stack s2))"
    have "unat (word_of_nat (length (nest_tables s2)) :: 64 word) = length (nest_tables s2)"
      using lt by (simp add: unat_of_nat)
    then have "unat (word_of_nat (length (nest_tables s2)) - ?c) = length (nest_tables s2) - unat ?c"
      using le unat_sub [of ?c "word_of_nat (length (nest_tables s2))"]
      by (simp add: word_le_nat_alt)
    then show ?thesis unfolding n3 by (simp add: resize_def)
  qed
  show ?thesis using 1 2 own n3 5 by blast
qed

text \<open>The theorem at the call of a closure whose body is \<^verbatim>\<open>AddLocalTable; Ret\<close>.\<close>

theorem Call_Ret_symmetry_witness:
  "step (call_state (VClosure 0)) = Inr call_state_1
   \<and> exec 1 call_state_1 = Some call_state_2
   \<and> step call_state_2 = Inr call_state_3
   \<and> length (nest_tables (call_state (VClosure 0))) = 1
   \<and> length (nest_tables call_state_2) = 2
   \<and> callee_tables (last (call_stack call_state_2)) = 1
   \<and> activation_tables 1 1 call_state_1 = 1
   \<and> call_stack call_state_3 = call_stack (call_state (VClosure 0))
   \<and> length (nest_tables call_state_3) = length (nest_tables (call_state (VClosure 0)))
   \<and> nest_tables call_state_3 = take (2 - 1) (nest_tables call_state_2)"
proof -
  let ?s = "call_state (VClosure 0)"
  have one: "(1::nat) = Suc 0" by simp
  have f: "fetch ?s = Inr \<lparr>op_code = OpCode_Call, param_a = InstructionParamType_Counter 0\<rparr>"
    by (simp add: fetch_def example_defs)
  have f1: "fetch call_state_1 = Inr \<lparr>op_code = OpCode_AddLocalTable, param_a = InstructionParamType_Counter 0\<rparr>"
    by (simp add: fetch_def call_state_1_def example_defs)
  have f2: "fetch call_state_2 = Inr \<lparr>op_code = OpCode_Ret, param_a = InstructionParamType_Counter 0\<rparr>"
    by (simp add: fetch_def call_state_2_def call_state_1_def example_defs)
  have e0: "exec 0 call_state_1 = Some call_state_1" by simp
  have e1: "exec 1 call_state_1 = Some call_state_2"
    unfolding one by (simp add: example_steps) (simp add: call_state_1_def)
  have len: "length (call_stack ?s) = 1" "length (call_stack call_state_1) = 2"
    "length (call_stack call_state_2) = 2" "length (nest_tables ?s) = 1"
    "length (nest_tables call_state_2) = 2"
    by (simp_all add: call_state_2_def call_state_1_def example_defs)
  have alive: "length (call_stack ?s) < length (call_stack t)"
    if "j \<le> 1" "exec j call_state_1 = Some t" for j t
  proof -
    from that(1) consider "j = 0" | "j = 1" by linarith
    then show ?thesis using that(2) e0 e1 len by cases auto
  qed
  have globals: "callee_tables (last (call_stack t)) = 1"
    if "j < 1" "exec j call_state_1 = Some t" "fetch t = Inr ins"
      "op_code ins = OpCode_DelGlobalTable" for j t ins
  proof -
    from that(1) have "j = 0" by simp
    with that(2) have "t = call_state_1" by simp
    with that(3,4) f1 show ?thesis by auto
  qed
  have ct: "callee_tables (last (call_stack call_state_2)) = 1"
    by (simp add: call_state_2_def)
  have act: "activation_tables 1 1 call_state_1 = 1"
    unfolding one by (simp add: example_steps own_effect_def local_effect_def f1 len)
  have r: "call_stack call_state_3 = call_stack ?s
     \<and> length (nest_tables call_state_3) = length (nest_tables ?s)
     \<and> callee_tables (last (call_stack call_state_2)) =
         word_of_int (activation_tables (length (call_stack ?s)) 1 call_state_1)
     \<and> nest_tables call_state_3 =
         resize (unat (word_of_nat (length (nest_tables call_state_2))
                   - callee_tables (last (call_stack call_state_2))))
           (nest_tables call_state_2)
     \<and> (unat (callee_tables (last (call_stack call_state_2))) \<le> length (nest_tables call_state_2) \<longrightarrow>
         length (nest_tables call_state_2) < 2 ^ 64 \<longrightarrow>
         nest_tables call_state_3 =
           take (length (nest_tables call_state_2) - unat (callee_tables (last (call_stack call_state_2))))
             (nest_tables call_state_2))"
  proof (rule Call_Ret_symmetry [OF f _ example_steps(1) e1 _ _ f2 _ _ example_steps(3)])
    show "op_code \<lparr>op_code = OpCode_Call, param_a = InstructionParamType_Counter 0\<rparr> = OpCode_Call"
      by simp
    show "op_code \<lparr>op_code = OpCode_Ret, param_a = InstructionParamType_Counter 0\<rparr> = OpCode_Ret"
      by simp
    show "length (call_stack call_state_2) = Suc (length (call_stack ?s))"
      using len by simp
    show "length (nest_tables ?s) < 2 ^ 64" using len by simp
  next
    fix j t assume "j \<le> 1" "exec j call_state_1 = Some t"
    then show "length (call_stack ?s) < length (call_stack t)" by (rule alive)
  next
    fix j t ins
    assume "j < 1" "exec j call_state_1 = Some t" "fetch t = Inr ins"
      "op_code ins = OpCode_DelGlobalTable"
    then show "callee_tables (last (call_stack t)) = 1" by (rule globals)
  qed
  from r have r1: "call_stack call_state_3 = call_stack ?s"
    and r2: "length (nest_tables call_state_3) = length (nest_tables ?s)"
    by blast+
  from r have "unat (callee_tables (last (call_stack call_state_2))) \<le> length (nest_tables call_state_2) \<longrightarrow>
         length (nest_tables call_state_2) < 2 ^ 64 \<longrightarrow>
         nest_tables call_state_3 =
           take (length (nest_tables call_state_2) - unat (callee_tables (last (call_stack call_state_2))))
             (nest_tables call_state_2)"
    by blast
  then have r5: "nest_tables call_state_3 = take (2 - 1) (nest_tables call_state_2)"
    unfolding ct len by simp
  show ?thesis
    using example_steps(1,3) e1 len(4,5) ct act r1 r2 r5 by blast
qed

section \<open>Assign\<close>

lemma exec_add:
  "exec (m + n) s = (case exec m s of None \<Rightarrow> None | Some t \<Rightarrow> exec n t)"
  by (induction m arbitrary: s) (auto split: sum.splits)

lemma fetch_at:
  assumes "ins_base s = pre @ c @ post" and "ins_current s = int (length pre) + int i"
    and "i < length c"
  shows "fetch s = Inr (c ! i)"
proof -
  have "nat (int (length pre) + int i) = length pre + i" by simp
  then show ?thesis using assms by (simp add: fetch_def nth_append)
qed

lemma exec_Suc_Inr:
  "ins_current s < ins_count s \<Longrightarrow> step s = Inr t \<Longrightarrow> exec (Suc k) s = exec k t"
  by simp

lemma assign_key_exec:
  assumes code: "ins_base s = pre @ assign_key_code k @ post"
    and pc: "ins_current s = int (length pre)"
    and cnt: "ins_count s = int (length (ins_base s))"
    and shape: "stack s = bottom @ map StackValueType_Value vals @ [StackValueType_Counter cur tot]"
    and len: "int (length vals) = tot" and cur: "0 \<le> cur"
    and nest: "nest_tables s \<noteq> []" "last (nest_tables s) = Some a"
    and a: "a < length (tables s)" and key: "k \<noteq> VNil"
  shows "exec 3 s =
     Some (s\<lparr>stack := bottom @ map StackValueType_Value vals @
                  [StackValueType_Counter (if cur < tot then cur + 1 else cur) tot],
             tables := (tables s)[a := (tables s ! a)
                         (k \<mapsto> (if cur < tot then vals ! nat cur else Some VNil))],
             ins_current := ins_current s + 3\<rparr>)"
proof -
  let ?s1 = "s\<lparr>stack := stack s @ [StackValueType_Value (Some (VTable a)), StackValueType_Counter 0 1],
                ins_current := ins_current s + 1\<rparr>"
  let ?s2 = "s\<lparr>stack := stack s @ [StackValueType_Value (Some (VTable a)), StackValueType_Counter 0 1,
                                     StackValueType_Value (Some k)],
                ins_current := ins_current s + 2\<rparr>"
  let ?s3 = "s\<lparr>stack := bottom @ map StackValueType_Value vals @
                  [StackValueType_Counter (if cur < tot then cur + 1 else cur) tot],
             tables := (tables s)[a := (tables s ! a)
                         (k \<mapsto> (if cur < tot then vals ! nat cur else Some VNil))],
             ins_current := ins_current s + 3\<rparr>"
  have f0: "fetch s = Inr (assign_key_code k ! 0)"
    by (rule fetch_at [OF code]) (simp_all add: pc assign_key_code_def)
  have f1: "fetch ?s1 = Inr (assign_key_code k ! 1)"
    by (rule fetch_at [of _ pre _ post]) (simp_all add: code pc assign_key_code_def)
  have f2: "fetch ?s2 = Inr (assign_key_code k ! 2)"
    by (rule fetch_at [of _ pre _ post]) (simp_all add: code pc assign_key_code_def)
  have lt: "ins_current s + 2 < ins_count s"
    unfolding cnt code pc by (simp add: assign_key_code_def)
  have st0: "step s = Inr ?s1"
    unfolding step_def f0 attempt_Inr
    using nest by (simp add: assign_key_code_def GetLocalTable_def vector_back_def attempt_Inr
        Push_def table_ptr_def)
  have st1: "step ?s1 = Inr ?s2"
    unfolding step_def f1 attempt_Inr
    by (simp add: assign_key_code_def DoPush_def Push_def)
  have as: "Assign ?s2 = Inr (?s2\<lparr>stack := bottom @ map StackValueType_Value vals @
                 [StackValueType_Counter (if cur < tot then cur + 1 else cur) tot],
            tables := (tables ?s2)[a := (tables ?s2 ! a)
                        (k \<mapsto> (if cur < tot then vals ! nat cur else Some VNil))]\<rparr>)"
    by (rule Assign_expected [where x = "StackValueType_Counter 0 1"])
       (simp_all add: shape len cur a key)
  have st2: "step ?s2 = Inr ?s3"
    unfolding step_def f2 attempt_Inr
    by (simp add: assign_key_code_def as)
  have three: "(3::nat) = Suc (Suc (Suc 0))" by simp
  show ?thesis
    unfolding three using lt
    by (subst exec_Suc_Inr [OF _ st0], simp, subst exec_Suc_Inr [OF _ st1], simp,
        subst exec_Suc_Inr [OF _ st2], simp, simp)
qed

lemma assign_keys_exec:
  assumes "ins_base s = pre @ assign_keys_code ks @ post"
    and "ins_current s = int (length pre)"
    and "ins_count s = int (length (ins_base s))"
    and "stack s = bottom @ map StackValueType_Value vals @ [StackValueType_Counter cur tot]"
    and "int (length vals) = tot" and "0 \<le> cur"
    and "nest_tables s \<noteq> []" and "last (nest_tables s) = Some a"
    and "a < length (tables s)" and "VNil \<notin> set ks" and "distinct ks"
  shows "\<exists>s'. exec (3 * length ks) s = Some s'
     \<and> stack s' = bottom @ map StackValueType_Value vals @
          [StackValueType_Counter (max cur (min (cur + int (length ks)) tot)) tot]
     \<and> (\<forall>i<length ks. (tables s' ! a) (ks ! i) =
            Some (if cur + int i < tot then vals ! nat (cur + int i) else Some VNil))
     \<and> (\<forall>k'. k' \<notin> set ks \<longrightarrow> (tables s' ! a) k' = (tables s ! a) k')"
  using assms
proof (induction ks arbitrary: s pre cur)
  case Nil
  then show ?case by (simp add: max_def)
next
  case (Cons k ks)
  let ?cur1 = "if cur < tot then cur + 1 else cur"
  let ?v = "if cur < tot then vals ! nat cur else Some VNil"
  let ?s1 = "s\<lparr>stack := bottom @ map StackValueType_Value vals @ [StackValueType_Counter ?cur1 tot],
             tables := (tables s)[a := (tables s ! a)(k \<mapsto> ?v)],
             ins_current := ins_current s + 3\<rparr>"
  have code: "ins_base s = pre @ assign_key_code k @ (assign_keys_code ks @ post)"
    using Cons.prems(1) by (simp add: assign_keys_code_def)
  have k: "k \<noteq> VNil" using Cons.prems(10) by auto
  have e3: "exec 3 s = Some ?s1"
    by (rule assign_key_exec [OF code Cons.prems(2,3,4,5,6,7,8,9) k])
  have "\<exists>s'. exec (3 * length ks) ?s1 = Some s'
     \<and> stack s' = bottom @ map StackValueType_Value vals @
          [StackValueType_Counter (max ?cur1 (min (?cur1 + int (length ks)) tot)) tot]
     \<and> (\<forall>i<length ks. (tables s' ! a) (ks ! i) =
            Some (if ?cur1 + int i < tot then vals ! nat (?cur1 + int i) else Some VNil))
     \<and> (\<forall>k'. k' \<notin> set ks \<longrightarrow> (tables s' ! a) k' = (tables ?s1 ! a) k')"
  proof (rule Cons.IH [where pre = "pre @ assign_key_code k"])
    show "ins_base ?s1 = (pre @ assign_key_code k) @ assign_keys_code ks @ post"
      using code by simp
    show "ins_current ?s1 = int (length (pre @ assign_key_code k))"
      using Cons.prems(2) by (simp add: assign_key_code_def)
    show "ins_count ?s1 = int (length (ins_base ?s1))" using Cons.prems(3) by simp
    show "stack ?s1 = bottom @ map StackValueType_Value vals @ [StackValueType_Counter ?cur1 tot]"
      by simp
    show "int (length vals) = tot" by (rule Cons.prems(5))
    show "0 \<le> ?cur1" using Cons.prems(6) by simp
    show "nest_tables ?s1 \<noteq> []" using Cons.prems(7) by simp
    show "last (nest_tables ?s1) = Some a" using Cons.prems(8) by simp
    show "a < length (tables ?s1)" using Cons.prems(9) by simp
    show "VNil \<notin> set ks" using Cons.prems(10) by simp
    show "distinct ks" using Cons.prems(11) by simp
  qed
  then obtain s' where ex: "exec (3 * length ks) ?s1 = Some s'"
    and stk: "stack s' = bottom @ map StackValueType_Value vals @
          [StackValueType_Counter (max ?cur1 (min (?cur1 + int (length ks)) tot)) tot]"
    and vs: "\<And>i. i < length ks \<Longrightarrow> (tables s' ! a) (ks ! i) =
            Some (if ?cur1 + int i < tot then vals ! nat (?cur1 + int i) else Some VNil)"
    and others: "\<And>k'. k' \<notin> set ks \<Longrightarrow> (tables s' ! a) k' = (tables ?s1 ! a) k'"
    by blast
  have n: "3 * length (k # ks) = 3 + 3 * length ks" by simp
  have 1: "exec (3 * length (k # ks)) s = Some s'"
    unfolding n exec_add e3 using ex by simp
  have 2: "stack s' = bottom @ map StackValueType_Value vals @
          [StackValueType_Counter (max cur (min (cur + int (length (k # ks))) tot)) tot]"
    unfolding stk by (auto simp: max_def min_def)
  have kk: "k \<notin> set ks" using Cons.prems(11) by simp
  have t1: "(tables ?s1 ! a) k' = (if k' = k then Some ?v else (tables s ! a) k')" for k'
    using Cons.prems(9) by simp
  have 3: "(tables s' ! a) ((k # ks) ! i) =
            Some (if cur + int i < tot then vals ! nat (cur + int i) else Some VNil)"
    if "i < length (k # ks)" for i
  proof (cases i)
    case 0
    then show ?thesis using others [OF kk] t1 [of k] by simp
  next
    case (Suc j)
    with that have j: "j < length ks" by simp
    have "nat (cur + 1 + int j) = nat (cur + int (Suc j))" by simp
    then show ?thesis using vs [OF j] Suc
      by (auto simp: add.commute add.left_commute)
  qed
  have 4: "(tables s' ! a) k' = (tables s ! a) k'" if "k' \<notin> set (k # ks)" for k'
    using that others [of k'] t1 [of k'] by simp
  from 1 2 3 4 show ?case by blast
qed

text \<open>Claim C4. On the stack \<^verbatim>\<open>Assign\<close> expects (the values of the right-hand side,
  their counter \<open>{cur, tot}\<close>, the table, one more slot, the key on top) one value is
  consumed: when \<open>cur < tot\<close> the value at position \<open>cur\<close> of the run is written as
  \<open>table[key]\<close> and the counter becomes \<open>{cur + 1, tot}\<close>; otherwise Nil is written
  and the counter is unchanged; the counter and the values stay on the stack. Hence
  running the assignments of \<open>K\<close> distinct keys of the innermost scope table from a
  counter \<open>{0, N}\<close> writes the first \<open>min K N\<close> values to the first keys and Nil to the
  other keys, and leaves the counter at \<open>{min K N, N}\<close>.\<close>

theorem Assign_consumes_one:
  "(stack s = bottom @ map StackValueType_Value vals @
        [StackValueType_Counter cur tot, StackValueType_Value (Some (VTable a)), x,
         StackValueType_Value (Some key)]
      \<and> int (length vals) = tot \<and> 0 \<le> cur \<and> a < length (tables s) \<and> key \<noteq> VNil \<longrightarrow>
    Assign s =
      Inr (s\<lparr>stack := bottom @ map StackValueType_Value vals @
                  [StackValueType_Counter (if cur < tot then cur + 1 else cur) tot],
             tables := (tables s)[a := (tables s ! a)
                         (key \<mapsto> (if cur < tot then vals ! nat cur else Some VNil))]\<rparr>))
   \<and> (ins_base s = pre @ assign_keys_code ks @ post
      \<and> ins_current s = int (length pre) \<and> ins_count s = int (length (ins_base s))
      \<and> stack s = bottom @ map StackValueType_Value vals @ [StackValueType_Counter 0 tot]
      \<and> int (length vals) = tot
      \<and> nest_tables s \<noteq> [] \<and> last (nest_tables s) = Some a \<and> a < length (tables s)
      \<and> VNil \<notin> set ks \<and> distinct ks \<longrightarrow>
    (\<exists>s'. exec (3 * length ks) s = Some s'
       \<and> stack s' = bottom @ map StackValueType_Value vals @
            [StackValueType_Counter (min (int (length ks)) tot) tot]
       \<and> (\<forall>i<length ks. (tables s' ! a) (ks ! i) =
              Some (if int i < tot then vals ! i else Some VNil))
       \<and> (\<forall>k'. k' \<notin> set ks \<longrightarrow> (tables s' ! a) k' = (tables s ! a) k')))"
proof (intro conjI impI)
  assume "stack s = bottom @ map StackValueType_Value vals @
        [StackValueType_Counter cur tot, StackValueType_Value (Some (VTable a)), x,
         StackValueType_Value (Some key)]
      \<and> int (length vals) = tot \<and> 0 \<le> cur \<and> a < length (tables s) \<and> key \<noteq> VNil"
  then show "Assign s =
      Inr (s\<lparr>stack := bottom @ map StackValueType_Value vals @
                  [StackValueType_Counter (if cur < tot then cur + 1 else cur) tot],
             tables := (tables s)[a := (tables s ! a)
                         (key \<mapsto> (if cur < tot then vals ! nat cur else Some VNil))]\<rparr>)"
    by (intro Assign_expected) simp_all
next
  assume h: "ins_base s = pre @ assign_keys_code ks @ post
      \<and> ins_current s = int (length pre) \<and> ins_count s = int (length (ins_base s))
      \<and> stack s = bottom @ map StackValueType_Value vals @ [StackValueType_Counter 0 tot]
      \<and> int (length vals) = tot
      \<and> nest_tables s \<noteq> [] \<and> last (nest_tables s) = Some a \<and> a < length (tables s)
      \<and> VNil \<notin> set ks \<and> distinct ks"
  then have "\<exists>s'. exec (3 * length ks) s = Some s'
     \<and> stack s' = bottom @ map StackValueType_Value vals @
          [StackValueType_Counter (max 0 (min (0 + int (length ks)) tot)) tot]
     \<and> (\<forall>i<length ks. (tables s' ! a) (ks ! i) =
            Some (if 0 + int i < tot then vals ! nat (0 + int i) else Some VNil))
     \<and> (\<forall>k'. k' \<notin> set ks \<longrightarrow> (tables s' ! a) k' = (tables s ! a) k')"
    by (intro assign_keys_exec [where pre = pre and post = post]) simp_all
  moreover from h have "0 \<le> tot" by auto
  then have "max 0 (min (0 + int (length ks)) tot) = min (int (length ks)) tot" by simp
  ultimately show "\<exists>s'. exec (3 * length ks) s = Some s'
       \<and> stack s' = bottom @ map StackValueType_Value vals @
            [StackValueType_Counter (min (int (length ks)) tot) tot]
       \<and> (\<forall>i<length ks. (tables s' ! a) (ks ! i) =
              Some (if int i < tot then vals ! i else Some VNil))
       \<and> (\<forall>k'. k' \<notin> set ks \<longrightarrow> (tables s' ! a) k' = (tables s ! a) k')"
    by (simp cong: if_cong)
qed

text \<open>The theorem at the first assignment of \<^verbatim>\<open>a = 10, 20\<close>, and at the whole of
  \<^verbatim>\<open>a, b, c = 10, 20\<close>.\<close>

theorem Assign_consumes_one_witness:
  "Assign assign_state =
     Inr (assign_state\<lparr>stack := [StackValueType_Value (Some (VNumber 10)),
            StackValueType_Value (Some (VNumber 20)), StackValueType_Counter 1 2],
          tables := [[VString ''a'' \<mapsto> Some (VNumber 10)]]\<rparr>)
   \<and> (\<exists>s'. exec 9 multi_assign_state = Some s'
        \<and> stack s' = [StackValueType_Value (Some (VNumber 10)),
             StackValueType_Value (Some (VNumber 20)), StackValueType_Counter 2 2]
        \<and> (tables s' ! 0) (VString ''a'') = Some (Some (VNumber 10))
        \<and> (tables s' ! 0) (VString ''b'') = Some (Some (VNumber 20))
        \<and> (tables s' ! 0) (VString ''c'') = Some (Some VNil))"
proof -
  have A: "Assign assign_state =
     Inr (assign_state\<lparr>stack := [StackValueType_Value (Some (VNumber 10)),
            StackValueType_Value (Some (VNumber 20)), StackValueType_Counter 1 2],
          tables := [[VString ''a'' \<mapsto> Some (VNumber 10)]]\<rparr>)"
    using Assign_consumes_one [of assign_state "[]" "[Some (VNumber 10), Some (VNumber 20)]" 0 2 0
        "StackValueType_Counter 0 1" "VString ''a''"]
    by (simp add: assign_state_def global_frame_def VirtualMachine_new_def)
  have "\<exists>s'. exec (3 * length [VString ''a'', VString ''b'', VString ''c'']) multi_assign_state = Some s'
       \<and> stack s' = [] @ map StackValueType_Value [Some (VNumber 10), Some (VNumber 20)] @
            [StackValueType_Counter (min (int (length [VString ''a'', VString ''b'', VString ''c''])) 2) 2]
       \<and> (\<forall>i<length [VString ''a'', VString ''b'', VString ''c''].
              (tables s' ! 0) ([VString ''a'', VString ''b'', VString ''c''] ! i) =
              Some (if int i < 2 then [Some (VNumber 10), Some (VNumber 20)] ! i else Some VNil))
       \<and> (\<forall>k'. k' \<notin> set [VString ''a'', VString ''b'', VString ''c''] \<longrightarrow>
              (tables s' ! 0) k' = (tables multi_assign_state ! 0) k')"
    using Assign_consumes_one [where s = multi_assign_state and pre = "[]" and post = "[]"
        and ks = "[VString ''a'', VString ''b'', VString ''c'']" and bottom = "[]"
        and vals = "[Some (VNumber 10), Some (VNumber 20)]" and tot = 2 and a = 0]
    by (simp add: multi_assign_state_def global_frame_def VirtualMachine_new_def
          assign_keys_code_def assign_key_code_def)
  then obtain s' where e: "exec 9 multi_assign_state = Some s'"
    and st: "stack s' = [StackValueType_Value (Some (VNumber 10)),
             StackValueType_Value (Some (VNumber 20)), StackValueType_Counter 2 2]"
    and v: "\<And>i. i < 3 \<Longrightarrow> (tables s' ! 0) ([VString ''a'', VString ''b'', VString ''c''] ! i) =
              Some (if int i < 2 then [Some (VNumber 10), Some (VNumber 20)] ! i else Some VNil)"
    by auto
  from v [of 0] v [of 1] v [of 2] have
    "(tables s' ! 0) (VString ''a'') = Some (Some (VNumber 10))"
    "(tables s' ! 0) (VString ''b'') = Some (Some (VNumber 20))"
    "(tables s' ! 0) (VString ''c'') = Some (Some VNil)"
    by simp_all
  with A e st show ?thesis by blast
qed

section \<open>GenerateClosure\<close>

lemma HaveKey_eq:
  assumes "a < length ts" "a < length ts'" "(ts' ! a) k = (ts ! a) k"
  shows "Table_HaveKey ts' (Some a) (Some k) = Table_HaveKey ts (Some a) (Some k)"
  using assms by (simp add: Table_HaveKey_def)

lemma GetValue_eq:
  assumes "a < length ts" "a < length ts'" "(ts' ! a) k = (ts ! a) k"
  shows "Table_GetValue ts' (Some a) (Some k) = Table_GetValue ts (Some a) (Some k)"
  using assms by (simp add: Table_GetValue_def)

lemma owner_loop_cong:
  assumes "\<And>t. t \<in> set its \<Longrightarrow> Table_HaveKey ts' t key = Table_HaveKey ts t key"
  shows "GetUpvalueKeyOwnerTable_loop ts' key its ct = GetUpvalueKeyOwnerTable_loop ts key its ct"
  using assms by (induction its) (auto split: sum.splits)

lemma owner_loop_found:
  "GetUpvalueKeyOwnerTable_loop ts key its ct = Inr (Some a) \<Longrightarrow>
     Some a \<in> set its \<and> Table_HaveKey ts (Some a) key = Inr True"
  by (induction its) (auto split: if_splits sum.splits)

lemma HaveKey_TrueD:
  "Table_HaveKey ts (Some a) key = Inr True \<Longrightarrow> a < length ts \<and> (\<exists>k. key = Some k \<and> (ts ! a) k \<noteq> None)"
  by (auto simp: Table_HaveKey_def split: if_splits option.splits)

text \<open>The shape of a successful owner resolution.\<close>

lemma owner_cases:
  assumes "GetUpvalueKeyOwnerTable key s = Inr (t, s1)"
  shows "call_stack s \<noteq> [] \<and> t < length (tables s) \<and>
    ((s1 = s \<and> Some t \<in> set (nest_tables s))
     \<or> (s1 = s \<and> (\<exists>c cl. callee (last (call_stack s)) = Some c \<and>
            as_closure (closures s) c = Inr cl \<and> upvalue_table cl = Some t))
     \<or> (callee (last (call_stack s)) = None \<and> callee_tables (last (call_stack s)) = 1 \<and>
         nest_tables s \<noteq> [] \<and> last (nest_tables s) = Some t \<and>
         GetUpvalueKeyOwnerTable_loop (tables s) key (rev (nest_tables s)) 1 = Inr None \<and>
         (\<exists>m. key = Some m \<and> m \<noteq> VNil \<and>
              s1 = s\<lparr>tables := (tables s)[t := (tables s ! t)(m \<mapsto> Some VNil)]\<rparr>)))"
proof -
  from assms have ne: "call_stack s \<noteq> []"
    by (auto simp: GetUpvalueKeyOwnerTable_def attempt_def vector_back_def split: if_splits)
  let ?info = "last (call_stack s)"
  from assms ne obtain found where
    l: "GetUpvalueKeyOwnerTable_loop (tables s) key (rev (nest_tables s)) (callee_tables ?info) = Inr found"
    by (auto simp: GetUpvalueKeyOwnerTable_def attempt_def vector_back_def split: sum.splits)
  have unf: "GetUpvalueKeyOwnerTable key s =
      (case found of
         Some a \<Rightarrow> Inr (a, s)
       | None \<Rightarrow>
           (case callee ?info of
              Some c \<Rightarrow>
                attempt (as_closure (closures s) c) s (\<lambda>cl.
                  case upvalue_table cl of
                    None \<Rightarrow> Inl (AssertionFailed, s)
                  | Some u \<Rightarrow>
                      attempt (Table_HaveKey (tables s) (Some u) key) s (\<lambda>present.
                        if present then Inr (u, s) else Inl (AssertionFailed, s)))
            | None \<Rightarrow>
                if callee_tables ?info \<noteq> 1 then Inl (AssertionFailed, s)
                else
                  attempt (vector_back (nest_tables s)) s (\<lambda>t.
                  attempt (Table_Assign (tables s) t key (Some VNil)) s (\<lambda>ts.
                    case t of
                      None \<Rightarrow> Inl (NullDereference, s)
                    | Some a \<Rightarrow> Inr (a, s\<lparr>tables := ts\<rparr>)))))"
    using ne l by (simp add: GetUpvalueKeyOwnerTable_def attempt_Inr vector_back_def)
  show ?thesis
  proof (cases found)
    case (Some a)
    with assms unf have "s1 = s" "t = a" by simp_all
    moreover from owner_loop_found [OF l [unfolded Some]] HaveKey_TrueD
    have "Some a \<in> set (nest_tables s)" "a < length (tables s)" by auto
    ultimately show ?thesis using ne by simp
  next
    case None
    show ?thesis
    proof (cases "callee ?info")
      case (Some c)
      from assms unf None Some obtain cl where cl: "as_closure (closures s) c = Inr cl"
        and r: "(case upvalue_table cl of
                    None \<Rightarrow> Inl (AssertionFailed, s)
                  | Some u \<Rightarrow>
                      attempt (Table_HaveKey (tables s) (Some u) key) s (\<lambda>present.
                        if present then Inr (u, s) else Inl (AssertionFailed, s))) = Inr (t, s1)"
        by (auto elim!: attempt_InrE)
      from r obtain u where u: "upvalue_table cl = Some u"
        by (cases "upvalue_table cl") simp_all
      from r u obtain present where h: "Table_HaveKey (tables s) (Some u) key = Inr present"
        and r2: "(if present then Inr (u, s) else Inl (AssertionFailed, s)) = Inr (t, s1)"
        by (auto elim!: attempt_InrE)
      from r2 have "present" "t = u" "s1 = s" by (auto split: if_splits)
      with HaveKey_TrueD [of "tables s" u key] h cl u Some ne show ?thesis by auto
    next
      case cn: None
      from assms unf None cn have ct: "callee_tables ?info = 1"
        by (auto split: if_splits)
      from assms unf None cn ct obtain p ts where
        vb: "vector_back (nest_tables s) = Inr p"
        and ta: "Table_Assign (tables s) p key (Some VNil) = Inr ts"
        and r: "(case p of None \<Rightarrow> Inl (NullDereference, s) | Some a \<Rightarrow> Inr (a, s\<lparr>tables := ts\<rparr>))
                 = Inr (t, s1)"
        by (auto elim!: attempt_InrE)
      from r have p: "p = Some t" and s1: "s1 = s\<lparr>tables := ts\<rparr>"
        by (cases p; simp)+
      from vb p have nn: "nest_tables s \<noteq> []" and la: "last (nest_tables s) = Some t"
        by (auto simp: vector_back_def split: if_splits)
      from ta p obtain m where "t < length (tables s)" "key = Some m" "m \<noteq> VNil"
        "ts = (tables s)[t := (tables s ! t)(m \<mapsto> Some VNil)]"
        by (auto simp: Table_Assign_def split: if_splits option.splits)
      with ne cn ct nn la l None s1 show ?thesis by auto
    qed
  qed
qed

lemma captured_null: "captured None s = None"
proof (cases "GetUpvalueKeyOwnerTable None s")
  case (Inl e)
  then show ?thesis by (simp add: captured_def)
next
  case (Inr r)
  obtain t s1 where r: "r = (t, s1)" by (cases r)
  from owner_cases [OF Inr [unfolded r]] have "t < length (tables s1)"
    by auto
  then show ?thesis using Inr r by (simp add: captured_def Table_GetValue_def)
qed

lemma captured_unfold:
  assumes "call_stack s \<noteq> []"
  shows "captured (Some k) s = bound_value k s"
proof -
  let ?info = "last (call_stack s)"
  let ?l = "GetUpvalueKeyOwnerTable_loop (tables s) (Some k) (rev (nest_tables s)) (callee_tables ?info)"
  have G: "GetUpvalueKeyOwnerTable (Some k) s =
      attempt ?l s (\<lambda>found.
        case found of
          Some a \<Rightarrow> Inr (a, s)
        | None \<Rightarrow>
            (case callee ?info of
               Some c \<Rightarrow>
                 attempt (as_closure (closures s) c) s (\<lambda>cl.
                   case upvalue_table cl of
                     None \<Rightarrow> Inl (AssertionFailed, s)
                   | Some u \<Rightarrow>
                       attempt (Table_HaveKey (tables s) (Some u) (Some k)) s (\<lambda>present.
                         if present then Inr (u, s) else Inl (AssertionFailed, s)))
             | None \<Rightarrow>
                 if callee_tables ?info \<noteq> 1 then Inl (AssertionFailed, s)
                 else
                   attempt (vector_back (nest_tables s)) s (\<lambda>t.
                   attempt (Table_Assign (tables s) t (Some k) (Some VNil)) s (\<lambda>ts.
                     case t of
                       None \<Rightarrow> Inl (NullDereference, s)
                     | Some a \<Rightarrow> Inr (a, s\<lparr>tables := ts\<rparr>)))))"
    using assms by (simp add: GetUpvalueKeyOwnerTable_def attempt_Inr vector_back_def)
  show ?thesis
  proof (cases ?l)
    case (Inl e)
    then show ?thesis by (simp add: captured_def G attempt_Inl bound_value_def)
  next
    case (Inr found)
    show ?thesis
    proof (cases found)
      case (Some a)
      with Inr show ?thesis
        by (simp add: captured_def G attempt_Inr bound_value_def)
    next
      case None
      show ?thesis
      proof (cases "callee ?info")
        case (Some c)
        show ?thesis
        proof (cases "as_closure (closures s) c")
          case (Inl e)
          with Inr None Some show ?thesis
            by (simp add: captured_def G attempt_Inr attempt_Inl bound_value_def)
        next
          case cl: (Inr cl)
          show ?thesis
          proof (cases "upvalue_table cl")
            case None
            with Inr \<open>found = None\<close> Some cl show ?thesis
              by (simp add: captured_def G attempt_Inr bound_value_def)
          next
            case w: (Some w)
            show ?thesis
            proof (cases "Table_HaveKey (tables s) (Some w) (Some k)")
              case (Inl e)
              with Inr None Some cl w show ?thesis
                by (simp add: captured_def G attempt_Inr attempt_Inl bound_value_def)
            next
              case h: (Inr present)
              with Inr None Some cl w show ?thesis
                by (cases present) (simp_all add: captured_def G attempt_Inr bound_value_def)
            qed
          qed
        qed
      next
        case cn: None
        show ?thesis
        proof (cases "callee_tables ?info = 1")
          case False
          with Inr None cn show ?thesis
            by (simp add: captured_def G attempt_Inr bound_value_def)
        next
          case True
          show ?thesis
          proof (cases "nest_tables s = []")
            case e: True
            with Inr None cn \<open>callee_tables ?info = 1\<close> show ?thesis
              by (simp add: captured_def G attempt_Inr attempt_Inl bound_value_def vector_back_def)
          next
            case ne: False
            show ?thesis
            proof (cases "last (nest_tables s)")
              case ln: None
              with Inr \<open>found = None\<close> cn True ne show ?thesis
                by (simp add: captured_def G attempt_Inr attempt_Inl bound_value_def vector_back_def
                    Table_Assign_def)
            next
              case b: (Some b)
              with Inr None cn True ne show ?thesis
                by (simp add: captured_def G attempt_Inr attempt_Inl bound_value_def vector_back_def
                    Table_Assign_def Table_GetValue_def)
            qed
          qed
        qed
      qed
    qed
  qed
qed

lemma bound_value_cong:
  assumes ne: "call_stack s \<noteq> []"
    and nest: "nest_tables s' = nest_tables s" and cs: "call_stack s' = call_stack s"
    and cl: "\<And>c. callee (last (call_stack s)) = Some c \<Longrightarrow>
               as_closure (closures s') c = as_closure (closures s) c"
    and wf: "scope_pointers_below u s"
    and len: "u \<le> length (tables s)" "u \<le> length (tables s')"
    and eq: "\<And>a. a < u \<Longrightarrow> (tables s' ! a) k = (tables s ! a) k"
  shows "bound_value k s' = bound_value k s"
proof -
  let ?info = "last (call_stack s)"
  have H: "Table_HaveKey (tables s') (Some a) (Some k) = Table_HaveKey (tables s) (Some a) (Some k)"
    if "a < u" for a
    using that len eq [OF that] by (intro HaveKey_eq) simp_all
  have V: "Table_GetValue (tables s') (Some a) (Some k) = Table_GetValue (tables s) (Some a) (Some k)"
    if "a < u" for a
    using that len eq [OF that] by (intro GetValue_eq) simp_all
  have below: "a < u" if "Some a \<in> set (nest_tables s)" for a
    using wf that by (simp add: scope_pointers_below_def)
  have L: "GetUpvalueKeyOwnerTable_loop (tables s') (Some k) (rev (nest_tables s)) ct =
           GetUpvalueKeyOwnerTable_loop (tables s) (Some k) (rev (nest_tables s)) ct" for ct
  proof (rule owner_loop_cong)
    fix t assume t: "t \<in> set (rev (nest_tables s))"
    show "Table_HaveKey (tables s') t (Some k) = Table_HaveKey (tables s) t (Some k)"
    proof (cases t)
      case None
      then show ?thesis by (simp add: Table_HaveKey_def)
    next
      case (Some a)
      with t below show ?thesis by (simp add: H)
    qed
  qed
  show ?thesis
  proof (cases "GetUpvalueKeyOwnerTable_loop (tables s) (Some k) (rev (nest_tables s))
                  (callee_tables ?info)")
    case (Inl e)
    then show ?thesis by (simp add: bound_value_def nest cs L)
  next
    case (Inr found)
    show ?thesis
    proof (cases found)
      case (Some a)
      from owner_loop_found [OF Inr [unfolded Some]] have "a < u" by (simp add: below)
      with Inr Some show ?thesis by (simp add: bound_value_def nest cs L V)
    next
      case None
      show ?thesis
      proof (cases "callee ?info")
        case (Some c)
        show ?thesis
        proof (cases "as_closure (closures s) c")
          case (Inl e)
          with Inr None Some show ?thesis by (simp add: bound_value_def nest cs L cl)
        next
          case c: (Inr cl')
          show ?thesis
          proof (cases "upvalue_table cl'")
            case None
            with Inr \<open>found = None\<close> Some c show ?thesis by (simp add: bound_value_def nest cs L cl)
          next
            case w: (Some w)
            from wf ne Some c w have "w < u" by (auto simp: scope_pointers_below_def)
            with Inr None Some c w show ?thesis by (simp add: bound_value_def nest cs L cl H V)
          qed
        qed
      next
        case cn: None
        show ?thesis
        proof (cases "vector_back (nest_tables s)")
          case (Inl e)
          with Inr None cn show ?thesis by (simp add: bound_value_def nest cs L)
        next
          case vb: (Inr p)
          show ?thesis
          proof (cases p)
            case None
            with Inr \<open>found = None\<close> cn vb show ?thesis by (simp add: bound_value_def nest cs L)
          next
            case b: (Some b)
            with vb have "Some b \<in> set (nest_tables s)"
              by (auto simp: vector_back_def split: if_splits dest: last_in_set)
            then have "b < u" by (rule below)
            with len have "b < length (tables s)" "b < length (tables s')" by simp_all
            with Inr None cn vb b show ?thesis by (simp add: bound_value_def nest cs L)
          qed
        qed
      qed
    qed
  qed
qed

lemma bound_value_inserted:
  assumes "callee (last (call_stack s)) = None" and "callee_tables (last (call_stack s)) = 1"
    and "nest_tables s \<noteq> []" and "last (nest_tables s) = Some b" and "b < length (tables s)"
    and "m \<noteq> VNil"
    and "GetUpvalueKeyOwnerTable_loop (tables s) (Some m) (rev (nest_tables s)) 1 = Inr None"
  shows "bound_value m s = Some (b, Some VNil)"
    and "bound_value m (s\<lparr>tables := (tables s)[b := (tables s ! b)(m \<mapsto> Some VNil)]\<rparr>)
           = Some (b, Some VNil)"
proof -
  show "bound_value m s = Some (b, Some VNil)"
    using assms by (simp add: bound_value_def vector_back_def)
  from assms(3,4) obtain xs where n: "nest_tables s = xs @ [Some b]"
    by (cases "nest_tables s" rule: rev_cases) auto
  show "bound_value m (s\<lparr>tables := (tables s)[b := (tables s ! b)(m \<mapsto> Some VNil)]\<rparr>)
           = Some (b, Some VNil)"
    using assms(2,5) by (simp add: bound_value_def n Table_HaveKey_def Table_GetValue_def)
qed

lemma scope_pointers_below_tables [simp]:
  "scope_pointers_below u (s\<lparr>tables := ts\<rparr>) = scope_pointers_below u s"
  by (simp add: scope_pointers_below_def)

lemma owner_below:
  assumes "GetUpvalueKeyOwnerTable key s = Inr (t, s1)" and "scope_pointers_below u s"
  shows "t < u"
  using owner_cases [OF assms(1)] assms(2)
  by (auto simp: scope_pointers_below_def dest: last_in_set)

lemma capture_iteration:
  assumes o: "GetUpvalueKeyOwnerTable name s = Inr (t, s1)"
    and g: "Table_GetValue (tables s1) (Some t) name = Inr v"
    and a: "Table_Assign (tables s1) (Some u) name v = Inr ts"
    and wf: "scope_pointers_below u s" and u: "u < length (tables s)"
  shows "\<exists>m. name = Some m \<and> bound_value m s = Some (t, v) \<and> (ts ! u) m = Some v \<and>
             (\<forall>k. k \<noteq> m \<longrightarrow> (ts ! u) k = (tables s ! u) k)"
    and "bound_value k (s1\<lparr>tables := ts\<rparr>) = bound_value k s"
    and "scope_pointers_below u (s1\<lparr>tables := ts\<rparr>)"
    and "length ts = length (tables s)"
    and "closures s1 = closures s" and "stack s1 = stack s" and "t < u"
proof -
  note oc = owner_cases [OF o]
  from oc have ne: "call_stack s \<noteq> []" and tl: "t < length (tables s)" by simp_all
  show tu: "t < u" by (rule owner_below [OF o wf])
  from oc have same: "nest_tables s1 = nest_tables s" "call_stack s1 = call_stack s"
    "closures s1 = closures s" "stack s1 = stack s" "length (tables s1) = length (tables s)"
    by auto
  show "closures s1 = closures s" "stack s1 = stack s" by (rule same)+
  from a u same obtain m where m: "name = Some m" "m \<noteq> VNil"
    and ts: "ts = (tables s1)[u := (tables s1 ! u)(m \<mapsto> v)]"
    by (auto simp: Table_Assign_def split: option.splits if_splits)
  show "length ts = length (tables s)" using ts same by simp
  show "scope_pointers_below u (s1\<lparr>tables := ts\<rparr>)"
    using wf same by (simp add: scope_pointers_below_def)
  have cap: "captured (Some m) s = Some (t, v)"
    using o g m by (simp add: captured_def)
  then have bv: "bound_value m s = Some (t, v)"
    using captured_unfold [OF ne] by simp
  have wf1: "scope_pointers_below u s1"
    using wf same by (simp add: scope_pointers_below_def)
  have ne1: "call_stack s1 \<noteq> []" using ne same by simp
  have step2: "bound_value k' (s1\<lparr>tables := ts\<rparr>) = bound_value k' s1" for k'
    by (rule bound_value_cong [OF ne1 _ _ _ wf1]) (use u same ts in simp_all)
  consider (same) "s1 = s"
    | (ins) "callee (last (call_stack s)) = None" "callee_tables (last (call_stack s)) = 1"
        "nest_tables s \<noteq> []" "last (nest_tables s) = Some t"
        "GetUpvalueKeyOwnerTable_loop (tables s) (Some m) (rev (nest_tables s)) 1 = Inr None"
        "s1 = s\<lparr>tables := (tables s)[t := (tables s ! t)(m \<mapsto> Some VNil)]\<rparr>"
    using oc m by auto
  then have main: "bound_value k s1 = bound_value k s \<and>
      (\<forall>k'. k' \<noteq> m \<longrightarrow> (tables s1 ! u) k' = (tables s ! u) k')"
  proof cases
    case same
    then show ?thesis by simp
  next
    case ins
    have "bound_value k s1 = bound_value k s"
    proof (cases "k = m")
      case True
      from bound_value_inserted [OF ins(1,2,3,4) tl m(2) ins(5)] ins(6) True
      show ?thesis by simp
    next
      case False
      show ?thesis
        by (rule bound_value_cong [OF ne _ _ _ wf])
           (use u tl False ins(6) in \<open>auto simp add: nth_list_update\<close>)
    qed
    moreover have "(tables s1 ! u) k' = (tables s ! u) k'" for k'
      using ins(6) tu by simp
    ultimately show ?thesis by simp
  qed
  show "bound_value k (s1\<lparr>tables := ts\<rparr>) = bound_value k s"
    using step2 main by simp
  show "\<exists>m. name = Some m \<and> bound_value m s = Some (t, v) \<and> (ts ! u) m = Some v \<and>
             (\<forall>k. k \<noteq> m \<longrightarrow> (ts ! u) k = (tables s ! u) k)"
    using m bv ts u same main by auto
qed

lemma GenerateClosure_loop_captures:
  assumes "GenerateClosure_loop u names s = Inr s'"
    and "scope_pointers_below u s" and "u < length (tables s)"
  shows "(\<forall>k. bound_value k s' = bound_value k s)
     \<and> length (tables s') = length (tables s) \<and> closures s' = closures s
     \<and> stack s' = stack s \<and> (names \<noteq> [] \<longrightarrow> call_stack s \<noteq> [])
     \<and> None \<notin> set names
     \<and> (\<forall>k. Some k \<in> set names \<longrightarrow>
           (\<exists>t v. bound_value k s = Some (t, v) \<and> t < u \<and> (tables s' ! u) k = Some v))
     \<and> (\<forall>k. Some k \<notin> set names \<longrightarrow> (tables s' ! u) k = (tables s ! u) k)"
  using assms
proof (induction names arbitrary: s)
  case Nil
  then show ?case by simp
next
  case (Cons name names)
  from Cons.prems(1) obtain t s1 v ts where
    o: "GetUpvalueKeyOwnerTable name s = Inr (t, s1)"
    and g: "Table_GetValue (tables s1) (Some t) name = Inr v"
    and a: "Table_Assign (tables s1) (Some u) name v = Inr ts"
    and r: "GenerateClosure_loop u names (s1\<lparr>tables := ts\<rparr>) = Inr s'"
    by (auto split: sum.splits prod.splits)
  let ?s2 = "s1\<lparr>tables := ts\<rparr>"
  note it = capture_iteration [OF o g a Cons.prems(2,3)]
  from it(1) obtain m where m: "name = Some m" "bound_value m s = Some (t, v)"
    "(ts ! u) m = Some v" "\<And>k. k \<noteq> m \<Longrightarrow> (ts ! u) k = (tables s ! u) k"
    by blast
  have bv: "bound_value k ?s2 = bound_value k s" for k by (rule it(2))
  have u2: "u < length (tables ?s2)" using it(4) Cons.prems(3) by simp
  from Cons.IH [OF r it(3) u2] have
    ih1: "\<And>k. bound_value k s' = bound_value k ?s2"
    and ih2: "length (tables s') = length (tables ?s2)" "closures s' = closures ?s2"
      "stack s' = stack ?s2"
    and ih3: "None \<notin> set names"
    and ih4: "\<And>k. Some k \<in> set names \<Longrightarrow>
           \<exists>t v. bound_value k ?s2 = Some (t, v) \<and> t < u \<and> (tables s' ! u) k = Some v"
    and ih5: "\<And>k. Some k \<notin> set names \<Longrightarrow> (tables s' ! u) k = (tables ?s2 ! u) k"
    by blast+
  have 1: "bound_value k s' = bound_value k s" for k using ih1 bv by simp
  have 2: "length (tables s') = length (tables s)" "closures s' = closures s"
    "stack s' = stack s" "call_stack s \<noteq> []"
    using ih2 it(4,5,6) owner_cases [OF o] by simp_all
  have 3: "None \<notin> set (name # names)" using ih3 m(1) by simp
  have 4: "\<exists>t v. bound_value k s = Some (t, v) \<and> t < u \<and> (tables s' ! u) k = Some v"
    if "Some k \<in> set (name # names)" for k
  proof (cases "Some k \<in> set names")
    case True
    from ih4 [OF True] show ?thesis by (simp add: bv)
  next
    case False
    with that m(1) have km: "k = m" by simp
    from ih5 [OF False] have "(tables s' ! u) k = (ts ! u) k" by simp
    with km m(2,3) it(7) show ?thesis by simp
  qed
  have 5: "(tables s' ! u) k = (tables s ! u) k" if "Some k \<notin> set (name # names)" for k
  proof -
    from that m(1) have "k \<noteq> m" "Some k \<notin> set names" by auto
    with ih5 [of k] m(4) [of k] show ?thesis by simp
  qed
  from 1 2 3 4 5 show ?case by blast
qed

text \<open>What \<^verbatim>\<open>GenerateClosure\<close> copies. Let the handler return for a function with the
  upvalue name \<open>n\<close>, in a state without dangling pointers among its scope tables and
  the upvalue table of the current callee. Then the new closure has a fresh upvalue
  table, and that table holds for \<open>n\<close> the value \<open>v\<close> that the table \<open>t\<close> returned by
  \<^verbatim>\<open>GetUpvalueKeyOwnerTable\<close> held when the handler started: the value is copied, not
  referred to. That table is another table, and assigning anything to \<open>n\<close> in it
  afterwards leaves the entry of the closure at \<open>v\<close>.\<close>

lemma GenerateClosure_copies_owner_value:
  assumes ins: "param_a ins = InstructionParamType_Value (Some (VFunction f))"
    and f: "f < length (funcs s)"
    and ok: "GenerateClosure ins s = Inr s'"
    and nest: "\<forall>a. Some a \<in> set (nest_tables s) \<longrightarrow> a < length (tables s)"
    and cal: "\<forall>c. call_stack s \<noteq> [] \<longrightarrow> callee (last (call_stack s)) = Some (VClosure c) \<longrightarrow>
                c < length (closures s) \<and>
                (\<forall>w. upvalue_table (closures s ! c) = Some w \<longrightarrow> w < length (tables s))"
    and n: "n \<in> set (upvalue_set (funcs s ! f))"
  shows "\<exists>t s1 v.
       GetUpvalueKeyOwnerTable n s = Inr (t, s1)
     \<and> Table_GetValue (tables s1) (Some t) n = Inr v
     \<and> closures s' = closures s @ [\<lparr>closure_func = f, upvalue_table = Some (length (tables s))\<rparr>]
     \<and> stack s' = stack s @ [StackValueType_Value (Some (VClosure (length (closures s)))),
                             StackValueType_Counter 0 1]
     \<and> Table_GetValue (tables s') (Some (length (tables s))) n = Inr v
     \<and> t \<noteq> length (tables s)
     \<and> (\<forall>v' ts'. Table_Assign (tables s') (Some t) n v' = Inr ts' \<longrightarrow>
            Table_GetValue ts' (Some (length (tables s))) n = Inr v)"
proof -
  let ?u = "length (tables s)"
  let ?names = "upvalue_set (funcs s ! f)"
  let ?P = "s\<lparr>tables := tables s @ [Map.empty],
              closures := closures s @ [\<lparr>closure_func = f, upvalue_table = Some ?u\<rparr>],
              stack := stack s @ [StackValueType_Value (Some (VClosure (length (closures s)))),
                                  StackValueType_Counter 0 1]\<rparr>"
  from n have nn: "?names \<noteq> []" by auto
  have loop: "GenerateClosure_loop ?u ?names ?P = Inr s'"
    using ok ins f nn
    by (simp add: GenerateClosure_def as_function_def attempt_Inr DataPool_GetClosure_def
        Let_def Push_def)
  have asc: "as_closure (closures ?P) c = as_closure (closures s) c"
    if "call_stack s \<noteq> []" "callee (last (call_stack s)) = Some c" for c
  proof (cases c)
    case (VClosure i)
    with cal that have "i < length (closures s)" by simp
    with VClosure show ?thesis by (simp add: as_closure_def nth_append)
  qed (simp_all add: as_closure_def)
  have wfs: "scope_pointers_below ?u s"
    unfolding scope_pointers_below_def using nest cal
    by (auto simp: as_closure_def split: val.splits if_splits)
  have wfP: "scope_pointers_below ?u ?P"
    unfolding scope_pointers_below_def
  proof (intro conjI allI impI)
    fix a assume "Some a \<in> set (nest_tables ?P)"
    then show "a < ?u" using nest by simp
  next
    fix c cl w
    assume h: "call_stack ?P \<noteq> []" "callee (last (call_stack ?P)) = Some c"
      "as_closure (closures ?P) c = Inr cl" "upvalue_table cl = Some w"
    then have "as_closure (closures s) c = Inr cl" using asc [of c] by simp
    with wfs h show "w < ?u" by (auto simp: scope_pointers_below_def)
  qed
  have uP: "?u < length (tables ?P)" by simp
  note lc = GenerateClosure_loop_captures [OF loop wfP uP]
  from lc nn have ne: "call_stack s \<noteq> []" by simp
  from lc n obtain k where k: "n = Some k" by (cases n) auto
  with lc n obtain t v where
    bP: "bound_value k ?P = Some (t, v)" and tu: "t < ?u" and cap: "(tables s' ! ?u) k = Some v"
    by blast
  have "bound_value k ?P = bound_value k s"
    by (rule bound_value_cong [OF ne _ _ _ wfs]) (use asc ne in \<open>simp_all add: nth_append\<close>)
  with bP captured_unfold [OF ne] have "captured (Some k) s = Some (t, v)" by simp
  then obtain s1 where o: "GetUpvalueKeyOwnerTable (Some k) s = Inr (t, s1)"
    and g: "Table_GetValue (tables s1) (Some t) (Some k) = Inr v"
    by (auto simp: captured_def split: sum.splits prod.splits)
  from lc have len: "length (tables s') = Suc ?u"
    and cls: "closures s' = closures ?P" and stk: "stack s' = stack ?P"
    by simp_all
  have gv: "Table_GetValue (tables s') (Some ?u) (Some k) = Inr v"
    using len cap by (simp add: Table_GetValue_def)
  have re: "Table_GetValue ts' (Some ?u) (Some k) = Inr v"
    if "Table_Assign (tables s') (Some t) (Some k) v' = Inr ts'" for v' ts'
  proof -
    from that have "ts' = (tables s')[t := (tables s' ! t)(k \<mapsto> v')]"
      by (auto simp: Table_Assign_def split: if_splits)
    with tu len cap show ?thesis by (simp add: Table_GetValue_def)
  qed
  show ?thesis
    using o g cls stk gv tu re unfolding k by (intro exI [of _ t] exI [of _ s1] exI [of _ v]) auto
qed

text \<open>The lemma in the global frame with \<open>n = 1\<close>: the closure captures 1, and after
  \<open>n = 2\<close> in the global table its upvalue table still has 1.\<close>

lemma GenerateClosure_copies_owner_value_example:
  "\<exists>s'. GenerateClosure generate_closure capture_state = Inr s'
     \<and> GetUpvalueKeyOwnerTable (Some (VString ''n'')) capture_state = Inr (0, capture_state)
     \<and> Table_GetValue (tables capture_state) (Some 0) (Some (VString ''n'')) = Inr (Some (VNumber 1))
     \<and> Table_GetValue (tables s') (Some 1) (Some (VString ''n'')) = Inr (Some (VNumber 1))
     \<and> (\<exists>ts'. Table_Assign (tables s') (Some 0) (Some (VString ''n'')) (Some (VNumber 2)) = Inr ts'
           \<and> Table_GetValue ts' (Some 0) (Some (VString ''n'')) = Inr (Some (VNumber 2))
           \<and> Table_GetValue ts' (Some 1) (Some (VString ''n'')) = Inr (Some (VNumber 1)))"
proof -
  note defs = capture_state_def global_frame_def VirtualMachine_new_def upvalue_function_def
    new_CallStackInfo_def generate_closure_def
  let ?n = "Some (VString ''n'')"
  have o: "GetUpvalueKeyOwnerTable ?n capture_state = Inr (0, capture_state)"
    by (simp add: defs GetUpvalueKeyOwnerTable_def vector_back_def attempt_def Table_HaveKey_def)
  have g: "Table_GetValue (tables capture_state) (Some 0) ?n = Inr (Some (VNumber 1))"
    by (simp add: defs Table_GetValue_def)
  obtain s' where ok: "GenerateClosure generate_closure capture_state = Inr s'"
    and ts: "tables s' = [[VString ''n'' \<mapsto> Some (VNumber 1)], [VString ''n'' \<mapsto> Some (VNumber 1)]]"
    by (simp add: defs GenerateClosure_def as_function_def attempt_def DataPool_GetClosure_def
        Let_def Push_def GetUpvalueKeyOwnerTable_def vector_back_def Table_HaveKey_def
        Table_GetValue_def Table_Assign_def)
  have "\<exists>t s1 v.
       GetUpvalueKeyOwnerTable ?n capture_state = Inr (t, s1)
     \<and> Table_GetValue (tables s1) (Some t) ?n = Inr v
     \<and> closures s' = closures capture_state @
          [\<lparr>closure_func = 0, upvalue_table = Some (length (tables capture_state))\<rparr>]
     \<and> stack s' = stack capture_state @
          [StackValueType_Value (Some (VClosure (length (closures capture_state)))),
           StackValueType_Counter 0 1]
     \<and> Table_GetValue (tables s') (Some (length (tables capture_state))) ?n = Inr v
     \<and> t \<noteq> length (tables capture_state)
     \<and> (\<forall>v' ts'. Table_Assign (tables s') (Some t) ?n v' = Inr ts' \<longrightarrow>
            Table_GetValue ts' (Some (length (tables capture_state))) ?n = Inr v)"
    by (rule GenerateClosure_copies_owner_value [OF _ _ ok]) (simp_all add: defs)
  with o g have c: "Table_GetValue (tables s') (Some (length (tables capture_state))) ?n
        = Inr (Some (VNumber 1))"
    and r: "\<And>v' ts'. Table_Assign (tables s') (Some 0) ?n v' = Inr ts' \<Longrightarrow>
            Table_GetValue ts' (Some (length (tables capture_state))) ?n = Inr (Some (VNumber 1))"
    by auto
  have l: "length (tables capture_state) = 1" by (simp add: defs)
  let ?ts' = "(tables s')[0 := (tables s' ! 0)(VString ''n'' \<mapsto> Some (VNumber 2))]"
  have a: "Table_Assign (tables s') (Some 0) ?n (Some (VNumber 2)) = Inr ?ts'"
    by (simp add: ts Table_Assign_def)
  have a0: "Table_GetValue ?ts' (Some 0) ?n = Inr (Some (VNumber 2))"
    by (simp add: ts Table_GetValue_def)
  from r [OF a] c a a0 o g ok show ?thesis unfolding l by blast
qed

text \<open>Claim C3 at a concrete state, inside the call of a closure. The current frame has
  one scope table, table 2, which has no \<open>n\<close>; in this frame \<open>n\<close> is the upvalue of the
  running closure, bound to 5 in its upvalue table 3, and that is where \<^verbatim>\<open>GetTable\<close>
  finds it. Table 1 is a scope table of the caller and binds another \<open>n\<close> to 1.
  \<^verbatim>\<open>GenerateClosure\<close> for a function with the upvalue \<open>n\<close> creates closure 1 with the
  upvalue table 4 and stores \<open>n = 1\<close> there: it takes the owner from
  \<^verbatim>\<open>GetUpvalueKeyOwnerTable\<close>, whose scan does not stop after the tables of the frame.
  The closure does not hold the value bound to \<open>n\<close> at its creation.\<close>

theorem GenerateClosure_captures_caller_binding:
  "nest_tables (closure_frame (Some 3)) = [Some 0, Some 1, Some 2]
   \<and> callee_tables (last (call_stack (closure_frame (Some 3)))) = 1
   \<and> GetTable get_n (closure_frame (Some 3)) =
       Inr (closure_frame (Some 3)\<lparr>stack := [StackValueType_Value (Some (VTable 3)),
                                              StackValueType_Counter 0 1]\<rparr>)
   \<and> Table_GetValue (tables (closure_frame (Some 3))) (Some 3) (Some (VString ''n''))
       = Inr (Some (VNumber 5))
   \<and> GenerateClosure generate_closure (closure_frame (Some 3)) =
       Inr (closure_frame (Some 3)
             \<lparr>tables := [Map.empty,
                          [VString ''n'' \<mapsto> Some (VNumber 1)],
                          Map.empty,
                          [VString ''n'' \<mapsto> Some (VNumber 5)],
                          [VString ''n'' \<mapsto> Some (VNumber 1)]],
              closures := [\<lparr>closure_func = 0, upvalue_table = Some 3\<rparr>,
                           \<lparr>closure_func = 0, upvalue_table = Some 4\<rparr>],
              stack := [StackValueType_Value (Some (VClosure 1)), StackValueType_Counter 0 1]\<rparr>)"
  by (simp add: get_n_def generate_closure_def closure_frame_def VirtualMachine_new_def
        new_CallStackInfo_def upvalue_function_def
        GetTable_def GenerateClosure_def as_function_def DataPool_GetClosure_def
        GetUpvalueKeyOwnerTable_def vector_back_def attempt_def Table_HaveKey_def
        Table_GetValue_def Table_Assign_def as_closure_def Push_def table_ptr_def Let_def)

end
